theory Spec2Isabelle
  imports Main "HOL-Library.Sublist"
begin

section \<open>The query builder of ssql/query_builder.py\<close>

text \<open>
  The builder consumes the nested token structure that the parser's \<open>asList()\<close> yields:
  a token is a string or a list of tokens. Python lists are mutated in place by the
  builder; every function below returns the lists it may have changed.
\<close>

subsection \<open>Tokens, errors, descriptors\<close>

datatype tok = Tok string | Grp "tok list"

text \<open>
  The class \<open>QueryTokens\<close> (ssql/query.py) is not among the sources: its constants are
  parameters of the model.
\<close>

record query_tokens =
  TWITTER :: string
  TWITTER_SAMPLE :: string
  LPAREN :: string
  RPAREN :: string
  AND_TOKEN :: string
  OR_TOKEN :: string
  CONTAINS :: string
  AS :: string
  EQUALS :: string
  EXCLAIM_EQUALS :: string
  WHERE_CONDITION :: string
  EMPTY_STRING :: string

text \<open>
  Every \<open>raise QueryException(...)\<close> of the source is one constructor of \<open>query_error\<close>,
  carrying the text the message is built from. The other errors are the exceptions Python
  itself raises on the paths the source does not guard.
\<close>

datatype query_error =
    UnknownSource string
  | MissingAlias "tok list"
  | UnknownCallable tok
  | EmptyFieldClause "tok list"
  | UnresolvableField tok
  | AggregateWithoutWindow
  | UngroupedSelectField string

datatype error = QueryException query_error | IndexError | AttributeError | TypeError

datatype StatusSource = TWITTER_FILTER | TWITTER_SAMPLE_SOURCE

datatype FieldType = RAW | FUNCTION | AGGREGATE | UNDEFINED

datatype aggregate_factory = AggregateFactory string

datatype function_handle = RegisteredFunction string

record FieldDescriptor =
  fd_alias :: tok
  underlying_fields :: "tok list"
  field_type :: FieldType
  aggregate_factory :: "aggregate_factory option"
  fd_function :: "function_handle option"
  visible :: bool

subsection \<open>Source classification\<close>

text \<open>
  \<open>__get_source\<close>: \<open>parsed.sources[0]\<close> raises IndexError on an empty list; a nested list
  is never equal to a string and has no \<open>startswith\<close>.
\<close>

fun get_source :: "query_tokens \<Rightarrow> tok list \<Rightarrow> error + StatusSource" where
  "get_source qt [] = Inl IndexError"
| "get_source qt (Grp ts # rest) = Inl AttributeError"
| "get_source qt (Tok source # rest) =
     (if source = TWITTER qt then Inr TWITTER_FILTER
      else if prefix (TWITTER_SAMPLE qt) source then Inr TWITTER_SAMPLE_SOURCE
      else Inl (QueryException (UnknownSource source)))"

subsection \<open>The descriptor table\<close>

text \<open>
  Modelled from the spec: the class \<open>TupleDescriptor\<close> (ssql/tuple_descriptor.py) is not
  among the sources. The spec calls it "an ordered, alias-keyed registry of field
  descriptors" that "preserves insertion order", with "aliases unique within a table".
  It is an association list in insertion order. A nested list cannot be a key (Python:
  TypeError, unhashable).
\<close>

type_synonym TupleDescriptor = "(string \<times> FieldDescriptor) list"

definition get_descriptor :: "TupleDescriptor \<Rightarrow> tok \<Rightarrow> error + FieldDescriptor option" where
  "get_descriptor td a = (case a of Tok s \<Rightarrow> Inr (map_of td s) | Grp ts \<Rightarrow> Inl TypeError)"

definition aliases :: "TupleDescriptor \<Rightarrow> string list" where
  "aliases td = map fst td"

text \<open>
  The verifier assigns to the attributes of the descriptor object stored under an alias;
  the table then holds the changed object at the same place.
\<close>

definition set_descriptor :: "TupleDescriptor \<Rightarrow> string \<Rightarrow> FieldDescriptor \<Rightarrow> TupleDescriptor" where
  "set_descriptor td s d = map (\<lambda>(k, v). if k = s then (k, d) else (k, v)) td"

text \<open>
  Modelled from the spec: a new alias is appended. A descriptor whose alias the table
  already holds takes no second place, the aliases being unique; which descriptor the
  table then holds under that alias is not told by the sources and is the parameter
  \<open>add_existing\<close>, a function of the descriptor held and of the one added.
\<close>

definition add_descriptor ::
  "(FieldDescriptor \<Rightarrow> FieldDescriptor \<Rightarrow> FieldDescriptor) \<Rightarrow> TupleDescriptor \<Rightarrow> FieldDescriptor
     \<Rightarrow> error + TupleDescriptor" where
  "add_descriptor add_existing td d =
     (case fd_alias d of
        Tok s \<Rightarrow>
          Inr (case map_of td s of
                 None \<Rightarrow> td @ [(s, d)]
               | Some held \<Rightarrow> set_descriptor td s (add_existing held d))
      | Grp ts \<Rightarrow> Inl TypeError)"

fun add_descriptor_list ::
  "(FieldDescriptor \<Rightarrow> FieldDescriptor \<Rightarrow> FieldDescriptor) \<Rightarrow> TupleDescriptor
     \<Rightarrow> FieldDescriptor list \<Rightarrow> error + TupleDescriptor" where
  "add_descriptor_list add_existing td [] = Inr td"
| "add_descriptor_list add_existing td (d # ds) =
     (case add_descriptor add_existing td d of
        Inl e \<Rightarrow> Inl e
      | Inr td' \<Rightarrow> add_descriptor_list add_existing td' ds)"

text \<open>
  Modelled from the spec: the treatment of a repeated alias that the spec's words ask
  for. A select field is visible in the output descriptor ("whether this field appears in
  the record", hidden only "for sub-expression arguments and for where-clause-only
  fields"), also when a hidden descriptor of its alias is added before or after it; and
  a \<open>Pending\<close> placeholder gives way to a definition of its alias, so that a field "may
  legitimately refer to an alias defined later in the select list, or vice versa".
\<close>

definition merge_descriptor :: "FieldDescriptor \<Rightarrow> FieldDescriptor \<Rightarrow> FieldDescriptor" where
  "merge_descriptor held d =
     (if field_type held = UNDEFINED then d else held)\<lparr>visible := visible held \<or> visible d\<rparr>"

subsection \<open>The builder and its list helpers\<close>

text \<open>
  The registries (\<open>get_aggregate_factory\<close>, \<open>FunctionRegistry.get_function\<close>) and the
  built-in schema \<open>twitter_tuple_descriptor()\<close> are not among the sources: they are
  parameters, a lookup returning a handle or nothing. So is \<open>add_existing\<close>, what the
  descriptor tables do with a repeated alias. The counter \<open>unnamed_operator_counter\<close> is
  the state every function passes on.
\<close>

record QueryBuilder =
  tokens :: query_tokens
  get_aggregate_factory :: "tok \<Rightarrow> aggregate_factory option"
  function_registry :: "tok \<Rightarrow> function_handle option"
  twitter_td :: TupleDescriptor
  add_existing :: "FieldDescriptor \<Rightarrow> FieldDescriptor \<Rightarrow> FieldDescriptor"

text \<open>The items of a Python sequence: a string is the sequence of its one-character strings.\<close>

definition as_list :: "tok \<Rightarrow> tok list" where
  "as_list l = (case l of Grp ts \<Rightarrow> ts | Tok s \<Rightarrow> map (\<lambda>c. Tok [c]) s)"

function remove_all_list :: "tok list \<Rightarrow> string \<Rightarrow> tok list" where
  "remove_all_list xs token =
     (if Tok token \<in> set xs then remove_all_list (remove1 (Tok token) xs) token else xs)"
  by pat_completeness auto
termination
proof (relation "measure (\<lambda>(xs, token). length xs)")
  fix xs :: "tok list" and token :: string
  assume "Tok token \<in> set xs"
  then have "0 < length xs" by (rule length_pos_if_in_set)
  then show "((remove1 (Tok token) xs, token), (xs, token)) \<in> measure (\<lambda>(xs, token). length xs)"
    using \<open>Tok token \<in> set xs\<close> by (simp add: length_remove1)
qed simp

declare remove_all_list.simps [simp del]

text \<open>
  \<open>__remove_all\<close>: on a string, \<open>token in list\<close> is the substring test and \<open>list.remove\<close>
  does not exist.
\<close>

definition remove_all :: "tok \<Rightarrow> string \<Rightarrow> error + tok" where
  "remove_all l token =
     (case l of
        Grp xs \<Rightarrow> Inr (Grp (remove_all_list xs token))
      | Tok s \<Rightarrow> if sublist token s then Inl AttributeError else Inr (Tok s))"

definition clean_list :: "query_tokens \<Rightarrow> tok \<Rightarrow> error + tok" where
  "clean_list qt l =
     (case remove_all l (LPAREN qt) of
        Inl e \<Rightarrow> Inl e
      | Inr l' \<Rightarrow> remove_all l' (RPAREN qt))"

text \<open>\<open>"operand%d" % n\<close>: the decimal digits of the counter.\<close>

fun string_of_nat :: "nat \<Rightarrow> string" where
  "string_of_nat n =
     (if n < 10 then [char_of (48 + n)]
      else string_of_nat (n div 10) @ [char_of (48 + n mod 10)])"

declare string_of_nat.simps [simp del]

text \<open>\<open>len(field) >= 3 and field[-2] == QueryTokens.AS\<close>, and \<open>field[:-2]\<close>.\<close>

definition has_alias :: "query_tokens \<Rightarrow> tok list \<Rightarrow> bool" where
  "has_alias qt field = (3 \<le> length field \<and> field ! (length field - 2) = Tok (AS qt))"

definition strip_alias :: "query_tokens \<Rightarrow> tok list \<Rightarrow> tok list" where
  "strip_alias qt field = (if has_alias qt field then take (length field - 2) field else field)"

fun tok_size :: "tok \<Rightarrow> nat" where
  "tok_size (Tok s) = 2 * (length s - 1)"
| "tok_size (Grp ts) = Suc (sum_list (map (\<lambda>t. Suc (tok_size t)) ts))"

definition toks_size :: "tok list \<Rightarrow> nat" where
  "toks_size ts = sum_list (map (\<lambda>t. Suc (tok_size t)) ts)"

lemma remove_all_list_filter: "remove_all_list xs token = filter (\<lambda>t. t \<noteq> Tok token) xs"
proof (induction xs token rule: remove_all_list.induct)
  case (1 xs token)
  show ?case
  proof (cases "Tok token \<in> set xs")
    case True
    have "filter (\<lambda>t. t \<noteq> Tok token) (remove1 (Tok token) xs) = filter (\<lambda>t. t \<noteq> Tok token) xs"
      by (induction xs) auto
    with True "1" show ?thesis
      by (subst remove_all_list.simps) simp
  next
    case False
    then have "filter (\<lambda>t. t \<noteq> Tok token) xs = xs"
      by (auto intro: filter_True)
    with False show ?thesis
      by (subst remove_all_list.simps) simp
  qed
qed

lemma toks_size_filter: "toks_size (filter P ts) \<le> toks_size ts"
  by (induction ts) (auto simp: toks_size_def)

lemma toks_size_take: "toks_size (take k ts) \<le> toks_size ts"
proof (induction ts arbitrary: k)
  case Nil
  then show ?case by (simp add: toks_size_def)
next
  case (Cons t ts)
  then show ?case
    by (cases k) (auto simp: toks_size_def)
qed

lemma toks_size_tl: "ts \<noteq> [] \<Longrightarrow> toks_size (tl ts) < toks_size ts"
  by (cases ts) (auto simp: toks_size_def)

lemma toks_size_strip_alias: "toks_size (strip_alias qt ts) \<le> toks_size ts"
  by (simp add: strip_alias_def toks_size_take)

lemma toks_size_chars: "toks_size (map (\<lambda>c. Tok [c]) s) = length s"
  by (induction s) (auto simp: toks_size_def)

lemma length_le_toks_size: "length ts \<le> toks_size ts"
  by (induction ts) (auto simp: toks_size_def)

lemma clean_list_Grp:
  "clean_list qt (Grp ts) = Inr (Grp (filter (\<lambda>t. t \<noteq> Tok (RPAREN qt)) (filter (\<lambda>t. t \<noteq> Tok (LPAREN qt)) ts)))"
  by (simp add: clean_list_def remove_all_def remove_all_list_filter)

lemma clean_list_Tok:
  "clean_list qt (Tok s) =
     (if sublist (LPAREN qt) s \<or> sublist (RPAREN qt) s then Inl AttributeError else Inr (Tok s))"
  by (simp add: clean_list_def remove_all_def)

lemma clean_list_size:
  assumes "clean_list qt field = Inr cleaned"
    and "1 < length (strip_alias qt (as_list cleaned))"
  shows "toks_size (tl (strip_alias qt (as_list cleaned))) < tok_size field"
proof (cases field)
  case (Tok s)
  with assms(1) have c: "cleaned = Tok s"
    by (auto simp: clean_list_Tok split: if_splits)
  let ?items = "strip_alias qt (map (\<lambda>c. Tok [c]) s)"
  from assms(2) c have ne: "?items \<noteq> []" and len: "1 < length ?items"
    by (auto simp: as_list_def)
  have "length ?items \<le> length s"
    by (simp add: strip_alias_def)
  with len have s2: "2 \<le> length s" by simp
  have "toks_size (tl ?items) < toks_size ?items"
    using ne by (rule toks_size_tl)
  also have "\<dots> \<le> toks_size (map (\<lambda>c. Tok [c]) s)"
    by (rule toks_size_strip_alias)
  also have "\<dots> = length s"
    by (rule toks_size_chars)
  finally show ?thesis
    using s2 c Tok by (simp add: as_list_def)
next
  case (Grp ts)
  let ?cs = "filter (\<lambda>t. t \<noteq> Tok (RPAREN qt)) (filter (\<lambda>t. t \<noteq> Tok (LPAREN qt)) ts)"
  from assms(1) Grp have c: "cleaned = Grp ?cs"
    by (simp add: clean_list_Grp)
  from assms(2) c have ne: "strip_alias qt ?cs \<noteq> []"
    by (auto simp: as_list_def)
  have "toks_size (tl (strip_alias qt ?cs)) < toks_size (strip_alias qt ?cs)"
    using ne by (rule toks_size_tl)
  also have "\<dots> \<le> toks_size ?cs"
    by (rule toks_size_strip_alias)
  also have "\<dots> \<le> toks_size (filter (\<lambda>t. t \<noteq> Tok (LPAREN qt)) ts)"
    by (rule toks_size_filter)
  also have "\<dots> \<le> toks_size ts"
    by (rule toks_size_filter)
  finally show ?thesis
    using c Grp by (simp add: as_list_def toks_size_def)
qed

subsection \<open>The field resolver\<close>

text \<open>
  \<open>__parse_field\<close> returns the descriptors and the names to verify; the model returns
  also the field as the in-place cleaning has left it, and the counter. A field that is a
  string is read by the source as the sequence of its characters.
\<close>

definition new_descriptor ::
  "tok \<Rightarrow> tok list \<Rightarrow> FieldType \<Rightarrow> aggregate_factory option \<Rightarrow> function_handle option \<Rightarrow> bool
     \<Rightarrow> FieldDescriptor" where
  "new_descriptor a underlying ftype factory f vis =
     \<lparr>fd_alias = a, underlying_fields = underlying, field_type = ftype,
      aggregate_factory = factory, fd_function = f, visible = vis\<rparr>"

text \<open>The list object of the field after the call: its arguments have been cleaned in place.\<close>

definition rebuilt_field :: "query_tokens \<Rightarrow> tok \<Rightarrow> tok list \<Rightarrow> tok" where
  "rebuilt_field qt cleaned args =
     (case cleaned of
        Tok s \<Rightarrow> Tok s
      | Grp items \<Rightarrow>
          Grp (take 1 (strip_alias qt items) @ args
               @ (if has_alias qt items then drop (length items - 2) items else [])))"

function (sequential)
  parse_field ::
    "QueryBuilder \<Rightarrow> TupleDescriptor \<Rightarrow> bool \<Rightarrow> bool \<Rightarrow> tok \<Rightarrow> nat
       \<Rightarrow> error + (FieldDescriptor list \<times> tok list \<times> tok \<times> nat)"
and parse_underlying ::
    "QueryBuilder \<Rightarrow> TupleDescriptor \<Rightarrow> tok list \<Rightarrow> nat
       \<Rightarrow> error + (FieldDescriptor list \<times> tok list \<times> tok list \<times> tok list \<times> nat)"
where
  "parse_field b td alias_on_complex_types make_visible field n =
     (case clean_list (tokens b) field of
        Inl e \<Rightarrow> Inl e
      | Inr cleaned \<Rightarrow>
          if length (strip_alias (tokens b) (as_list cleaned)) = 1 then
            (case get_descriptor td (strip_alias (tokens b) (as_list cleaned) ! 0) of
               Inl e \<Rightarrow> Inl e
             | Inr None \<Rightarrow>
                 Inr ([new_descriptor
                         (if has_alias (tokens b) (as_list cleaned) then last (as_list cleaned)
                          else strip_alias (tokens b) (as_list cleaned) ! 0)
                         [strip_alias (tokens b) (as_list cleaned) ! 0] UNDEFINED None None
                         make_visible],
                      [strip_alias (tokens b) (as_list cleaned) ! 0,
                       if has_alias (tokens b) (as_list cleaned) then last (as_list cleaned)
                       else strip_alias (tokens b) (as_list cleaned) ! 0],
                      cleaned, n)
             | Inr (Some field_descriptor) \<Rightarrow>
                 Inr ([new_descriptor
                         (if has_alias (tokens b) (as_list cleaned) then last (as_list cleaned)
                          else strip_alias (tokens b) (as_list cleaned) ! 0)
                         (underlying_fields field_descriptor) (field_type field_descriptor)
                         (aggregate_factory field_descriptor) (fd_function field_descriptor)
                         make_visible],
                      [], cleaned, n))
          else if 1 < length (strip_alias (tokens b) (as_list cleaned)) then
            (if \<not> has_alias (tokens b) (as_list cleaned) \<and> alias_on_complex_types then
               Inl (QueryException (MissingAlias (strip_alias (tokens b) (as_list cleaned))))
             else
               (case parse_underlying b td (tl (strip_alias (tokens b) (as_list cleaned)))
                       (if has_alias (tokens b) (as_list cleaned) then n else n + 1) of
                  Inl e \<Rightarrow> Inl e
                | Inr (parsed_fds, fields_to_verify, underlying, args, n') \<Rightarrow>
                    (case get_aggregate_factory b (strip_alias (tokens b) (as_list cleaned) ! 0) of
                       Some factory \<Rightarrow>
                         Inr (new_descriptor
                                (if has_alias (tokens b) (as_list cleaned) then last (as_list cleaned)
                                 else Tok (''operand'' @ string_of_nat (n + 1)))
                                underlying AGGREGATE (Some factory) None make_visible # parsed_fds,
                              fields_to_verify, rebuilt_field (tokens b) cleaned args, n')
                     | None \<Rightarrow>
                         (case function_registry b (strip_alias (tokens b) (as_list cleaned) ! 0) of
                            Some f \<Rightarrow>
                              Inr (new_descriptor
                                     (if has_alias (tokens b) (as_list cleaned) then last (as_list cleaned)
                                      else Tok (''operand'' @ string_of_nat (n + 1)))
                                     underlying FUNCTION None (Some f) make_visible # parsed_fds,
                                   fields_to_verify, rebuilt_field (tokens b) cleaned args, n')
                          | None \<Rightarrow>
                              Inl (QueryException
                                     (UnknownCallable (strip_alias (tokens b) (as_list cleaned) ! 0)))))))
          else Inl (QueryException (EmptyFieldClause (as_list field))))"
| "parse_underlying b td [] n = Inr ([], [], [], [], n)"
| "parse_underlying b td (underlying # rest) n =
     (case parse_field b td False False underlying n of
        Inl e \<Rightarrow> Inl e
      | Inr ([], parsed_verify, underlying', n1) \<Rightarrow> Inl IndexError
      | Inr (parsed_fd # parsed_fd_list, parsed_verify, underlying', n1) \<Rightarrow>
          (case parse_underlying b td rest n1 of
             Inl e \<Rightarrow> Inl e
           | Inr (parsed_fds, fields_to_verify, underlying_aliases, rest', n2) \<Rightarrow>
               Inr (map (\<lambda>d. d\<lparr>visible := False\<rparr>) (parsed_fd # parsed_fd_list) @ parsed_fds,
                    parsed_verify @ fields_to_verify,
                    fd_alias parsed_fd # underlying_aliases,
                    underlying' # rest', n2)))"
  by pat_completeness auto
termination
proof (relation "measure (\<lambda>x. case x of
          Inl (b, td, a, v, field, n) \<Rightarrow> tok_size field
        | Inr (b, td, us, n) \<Rightarrow> toks_size us)")
qed (auto simp: toks_size_def clean_list_size [unfolded toks_size_def])

subsection \<open>The predicate tree builder\<close>

text \<open>
  The operator classes of ssql/operators.py are not among the sources; their constructors
  are the constructors of \<open>tree\<close>. \<open>NoneValue\<close> is Python's \<open>None\<close> and \<open>StrValue\<close> a bare
  string, both of which \<open>__parse_clauses\<close> can return in the place of an operator.
\<close>

datatype tree =
    AllowAll
  | And "tree list"
  | Or "tree list"
  | Not tree
  | Contains tok tok
  | Equals tok tok
  | NoneValue
  | StrValue string
  | GroupBy tree TupleDescriptor "FieldDescriptor list" "tok list"

definition and_or_single :: "tree list \<Rightarrow> tree" where
  "and_or_single ands = (if length ands = 1 then ands ! 0 else And ands)"

text \<open>
  \<open>__where_field\<close> returns the alias; the model returns also the field (the alias marker
  and the alias appended in place when it had none) and the list \<open>where_fields\<close>.
  A string has no \<open>append\<close>.
\<close>

definition where_field ::
  "QueryBuilder \<Rightarrow> tok \<Rightarrow> tok list \<Rightarrow> nat \<Rightarrow> error + (tok \<times> tok \<times> tok list \<times> nat)" where
  "where_field b field where_fields n =
     (case parse_field b (twitter_td b) False False field n of
        Inl e \<Rightarrow> Inl e
      | Inr ([], verify, field', n') \<Rightarrow> Inl IndexError
      | Inr (d # ds, verify, field', n') \<Rightarrow>
          if \<not> has_alias (tokens b) (as_list field') then
            (case field' of
               Tok s \<Rightarrow> Inl AttributeError
             | Grp items \<Rightarrow>
                 Inr (fd_alias d, Grp (items @ [Tok (AS (tokens b)), fd_alias d]),
                      where_fields @ [Grp (items @ [Tok (AS (tokens b)), fd_alias d])], n'))
          else Inr (fd_alias d, field', where_fields @ [field'], n'))"

text \<open>
  \<open>__parse_operator\<close> receives the slice \<open>clauses[1:]\<close>, whose first element is the field's
  list object itself. When no branch matches the Python function ends and returns \<open>None\<close>.
\<close>

definition parse_operator ::
  "QueryBuilder \<Rightarrow> tok list \<Rightarrow> tok list \<Rightarrow> nat \<Rightarrow> error + (tree \<times> tok list \<times> tok list \<times> nat)" where
  "parse_operator b clause where_fields n =
     (if length clause = 3 \<and> clause ! 1 = Tok (CONTAINS (tokens b)) then
        (case where_field b (clause ! 0) where_fields n of
           Inl e \<Rightarrow> Inl e
         | Inr (a, field', where_fields', n') \<Rightarrow>
             Inr (Contains a (clause ! 2), clause[0 := field'], where_fields', n'))
      else if length clause = 3 \<and> clause ! 1 = Tok (EQUALS (tokens b)) then
        (case where_field b (clause ! 0) where_fields n of
           Inl e \<Rightarrow> Inl e
         | Inr (a, field', where_fields', n') \<Rightarrow>
             Inr (Equals a (clause ! 2), clause[0 := field'], where_fields', n'))
      else if length clause = 3 \<and> clause ! 1 = Tok (EXCLAIM_EQUALS (tokens b)) then
        (case where_field b (clause ! 0) where_fields n of
           Inl e \<Rightarrow> Inl e
         | Inr (a, field', where_fields', n') \<Rightarrow>
             Inr (Not (Equals a (clause ! 2)), clause[0 := field'], where_fields', n'))
      else Inr (NoneValue, clause, where_fields, n))"

lemma clean_list_Grp_size:
  assumes "clean_list qt clauses = Inr (Grp cs)"
  shows "toks_size cs < tok_size clauses"
proof (cases clauses)
  case (Tok s)
  with assms show ?thesis
    by (auto simp: clean_list_Tok split: if_splits)
next
  case (Grp ts)
  with assms have "cs = filter (\<lambda>t. t \<noteq> Tok (RPAREN qt)) (filter (\<lambda>t. t \<noteq> Tok (LPAREN qt)) ts)"
    by (simp add: clean_list_Grp)
  then have "toks_size cs \<le> toks_size ts"
    using toks_size_filter [of "\<lambda>t. t \<noteq> Tok (RPAREN qt)" "filter (\<lambda>t. t \<noteq> Tok (LPAREN qt)) ts"]
      toks_size_filter [of "\<lambda>t. t \<noteq> Tok (LPAREN qt)" ts]
    by simp
  with Grp show ?thesis
    by (simp add: toks_size_def)
qed

text \<open>
  \<open>__parse_clauses\<close>. The loop \<open>while i < len(clauses)\<close> reads \<open>clauses[i]\<close> and
  \<open>clauses[i+1]\<close> and steps by two: \<open>parse_loop\<close> is the loop from index \<open>i\<close> on, taking the
  elements \<open>clauses[i:]\<close> with the lists \<open>ands\<close> and \<open>ors\<close>, and returning \<open>ors\<close>.
\<close>

function (sequential)
  parse_clauses ::
    "QueryBuilder \<Rightarrow> tok \<Rightarrow> tok list \<Rightarrow> nat \<Rightarrow> error + (tree \<times> tok \<times> tok list \<times> nat)"
and parse_loop ::
    "QueryBuilder \<Rightarrow> tok list \<Rightarrow> tree list \<Rightarrow> tree list \<Rightarrow> tok list \<Rightarrow> nat
       \<Rightarrow> error + (tree list \<times> tok list \<times> tok list \<times> nat)"
where
  "parse_clauses b clauses where_fields n =
     (case clean_list (tokens b) clauses of
        Inl e \<Rightarrow> Inl e
      | Inr (Tok s) \<Rightarrow> Inr (StrValue s, Tok s, where_fields, n)
      | Inr (Grp []) \<Rightarrow> Inl IndexError
      | Inr (Grp (c # cs)) \<Rightarrow>
          if c = Tok (WHERE_CONDITION (tokens b)) then
            (case parse_operator b cs where_fields n of
               Inl e \<Rightarrow> Inl e
             | Inr (t, cs', where_fields', n') \<Rightarrow> Inr (t, Grp (c # cs'), where_fields', n'))
          else
            (case parse_loop b (c # cs) [] [] where_fields n of
               Inl e \<Rightarrow> Inl e
             | Inr (ors, cs', where_fields', n') \<Rightarrow>
                 Inr (if length ors = 1 then ors ! 0 else Or ors, Grp cs', where_fields', n')))"
| "parse_loop b [] ands ors where_fields n = Inr (ors, [], where_fields, n)"
| "parse_loop b [c] ands ors where_fields n =
     (case parse_clauses b c where_fields n of
        Inl e \<Rightarrow> Inl e
      | Inr (t, c', where_fields', n') \<Rightarrow>
          Inr (ors @ [and_or_single (ands @ [t])], [c'], where_fields', n'))"
| "parse_loop b (c # sep # rest) ands ors where_fields n =
     (case parse_clauses b c where_fields n of
        Inl e \<Rightarrow> Inl e
      | Inr (t, c', where_fields', n') \<Rightarrow>
          (case (if sep = Tok (OR_TOKEN (tokens b)) then
                   parse_loop b rest [] (ors @ [and_or_single (ands @ [t])]) where_fields' n'
                 else if sep = Tok (AND_TOKEN (tokens b)) then
                   parse_loop b rest (ands @ [t]) ors where_fields' n'
                 else parse_loop b rest (ands @ [t]) ors where_fields' n') of
             Inl e \<Rightarrow> Inl e
           | Inr (ors', rest', where_fields'', n'') \<Rightarrow>
               Inr (ors', c' # sep # rest', where_fields'', n'')))"
  by pat_completeness auto
termination
proof (relation "measure (\<lambda>x. case x of
          Inl (b, clauses, wfs, n) \<Rightarrow> tok_size clauses
        | Inr (b, cs, ands, ors, wfs, n) \<Rightarrow> toks_size cs)")
qed (auto simp: toks_size_def dest: clean_list_Grp_size [unfolded toks_size_def])

text \<open>\<open>__parse_where\<close>: \<open>where_clause[0][1:]\<close> is a new list (or string) without the marker.\<close>

definition parse_where ::
  "QueryBuilder \<Rightarrow> tok list \<Rightarrow> nat \<Rightarrow> error + (tree \<times> tok list \<times> nat)" where
  "parse_where b where_clause n =
     (if where_clause = [Tok []] then Inr (AllowAll, [], n)
      else
        (case where_clause of
           [] \<Rightarrow> Inl IndexError
         | w # ws \<Rightarrow>
             (case parse_clauses b (case w of Grp ts \<Rightarrow> Grp (drop 1 ts) | Tok s \<Rightarrow> Tok (drop 1 s)) [] n of
                Inl e \<Rightarrow> Inl e
              | Inr (t, clauses', where_fields, n') \<Rightarrow> Inr (t, where_fields, n'))))"

subsection \<open>The reference verifier\<close>

text \<open>
  \<open>__verify_and_fix_field\<close> calls itself along the underlying references and nothing
  bounds the calls: not returning is the value \<open>None\<close>. It returns the descriptor and the
  table, in which the descriptor stored under \<open>field\<close> carries the four copied attributes.
  The first two cases are \<open>tuple_descriptor.get_descriptor(field)\<close>;
  \<open>underlying_fields[0]\<close> raises IndexError on an empty list.
\<close>

partial_function (option) verify_and_fix_field ::
  "tok \<Rightarrow> TupleDescriptor \<Rightarrow> (error + (FieldDescriptor \<times> TupleDescriptor)) option" where
  "verify_and_fix_field field tuple_descriptor =
     (case field of
        Grp ts \<Rightarrow> Some (Inl TypeError)
      | Tok s \<Rightarrow>
     (case map_of tuple_descriptor s of
        None \<Rightarrow> Some (Inl (QueryException (UnresolvableField field)))
      | Some field_descriptor \<Rightarrow>
          if field_type field_descriptor = UNDEFINED then
            (case underlying_fields field_descriptor of
               [] \<Rightarrow> Some (Inl IndexError)
             | u # us \<Rightarrow>
                 if field = u then Some (Inl (QueryException (UnresolvableField field)))
                 else
                   Option.bind (verify_and_fix_field u tuple_descriptor)
                     (\<lambda>r. case r of
                        Inl e \<Rightarrow> Some (Inl e)
                      | Inr (referenced_field_descriptor, td') \<Rightarrow>
                          Some (Inr
                            (field_descriptor
                               \<lparr>underlying_fields := underlying_fields referenced_field_descriptor,
                                field_type := field_type referenced_field_descriptor,
                                aggregate_factory := aggregate_factory referenced_field_descriptor,
                                fd_function := fd_function referenced_field_descriptor\<rparr>,
                             set_descriptor td' s
                               (field_descriptor
                                  \<lparr>underlying_fields := underlying_fields referenced_field_descriptor,
                                   field_type := field_type referenced_field_descriptor,
                                   aggregate_factory := aggregate_factory referenced_field_descriptor,
                                   fd_function := fd_function referenced_field_descriptor\<rparr>)))))
          else Some (Inr (field_descriptor, tuple_descriptor))))"

declare verify_and_fix_field.simps [code]

text \<open>\<open>for field in fields_to_verify: self.__verify_and_fix_field(field, tuple_descriptor)\<close>\<close>

fun verify_fields :: "tok list \<Rightarrow> TupleDescriptor \<Rightarrow> (error + TupleDescriptor) option" where
  "verify_fields [] td = Some (Inr td)"
| "verify_fields (field # rest) td =
     Option.bind (verify_and_fix_field field td)
       (\<lambda>r. case r of Inl e \<Rightarrow> Some (Inl e) | Inr (d, td') \<Rightarrow> verify_fields rest td')"

subsection \<open>Select, aggregation and window\<close>

text \<open>
  The loops of \<open>__add_select_and_aggregate\<close>, one function each. The first loop returns
  the fields it has parsed as the cleaning left them, since the later loops parse the same
  list objects again.

  Lines 138-141, over one of the chained lists:
\<close>

fun collect_fields ::
  "QueryBuilder \<Rightarrow> tok list \<Rightarrow> tok list \<Rightarrow> TupleDescriptor \<Rightarrow> nat
     \<Rightarrow> error + (tok list \<times> TupleDescriptor \<times> tok list \<times> nat)" where
  "collect_fields b [] fields_to_verify tuple_descriptor n =
     Inr (fields_to_verify, tuple_descriptor, [], n)"
| "collect_fields b (field # rest) fields_to_verify tuple_descriptor n =
     (case parse_field b (twitter_td b) True False field n of
        Inl e \<Rightarrow> Inl e
      | Inr (field_descriptors, verify, field', n1) \<Rightarrow>
          (case add_descriptor_list (add_existing b) tuple_descriptor field_descriptors of
             Inl e \<Rightarrow> Inl e
           | Inr td' \<Rightarrow>
               (case collect_fields b rest (fields_to_verify @ verify) td' n1 of
                  Inl e \<Rightarrow> Inl e
                | Inr (ftv, td'', rest', n2) \<Rightarrow> Inr (ftv, td'', field' # rest', n2))))"

text \<open>Lines 152-156.\<close>

fun select_fields ::
  "QueryBuilder \<Rightarrow> TupleDescriptor \<Rightarrow> tok list \<Rightarrow> TupleDescriptor \<Rightarrow> FieldDescriptor list \<Rightarrow> nat
     \<Rightarrow> error + (TupleDescriptor \<times> FieldDescriptor list \<times> nat)" where
  "select_fields b tuple_descriptor [] select_descriptor aggregates n =
     Inr (select_descriptor, aggregates, n)"
| "select_fields b tuple_descriptor (field # rest) select_descriptor aggregates n =
     (case parse_field b tuple_descriptor True True field n of
        Inl e \<Rightarrow> Inl e
      | Inr ([], verify, field', n1) \<Rightarrow> Inl IndexError
      | Inr (d # ds, verify, field', n1) \<Rightarrow>
          (case add_descriptor_list (add_existing b) select_descriptor (d # ds) of
             Inl e \<Rightarrow> Inl e
           | Inr sd' \<Rightarrow>
               select_fields b tuple_descriptor rest sd'
                 (if field_type d = AGGREGATE then aggregates @ [d] else aggregates) n1))"

text \<open>Lines 158-160 (\<open>make_visible = False\<close>) and 164-166 (\<open>make_visible = True\<close>).\<close>

fun describe_fields ::
  "QueryBuilder \<Rightarrow> TupleDescriptor \<Rightarrow> bool \<Rightarrow> tok list \<Rightarrow> TupleDescriptor \<Rightarrow> nat
     \<Rightarrow> error + (TupleDescriptor \<times> nat)" where
  "describe_fields b tuple_descriptor make_visible [] descriptor n = Inr (descriptor, n)"
| "describe_fields b tuple_descriptor make_visible (field # rest) descriptor n =
     (case parse_field b tuple_descriptor True make_visible field n of
        Inl e \<Rightarrow> Inl e
      | Inr (field_descriptors, verify, field', n1) \<Rightarrow>
          (case add_descriptor_list (add_existing b) descriptor field_descriptors of
             Inl e \<Rightarrow> Inl e
           | Inr descriptor' \<Rightarrow>
               describe_fields b tuple_descriptor make_visible rest descriptor' n1))"

text \<open>
  Lines 167-173, over \<open>select_descriptor.aliases\<close>. \<open>select_field.field_type\<close> is read only
  when \<open>group_field == None\<close>; on a missing descriptor it is an AttributeError.
\<close>

fun check_aliases :: "string list \<Rightarrow> TupleDescriptor \<Rightarrow> TupleDescriptor \<Rightarrow> error + unit" where
  "check_aliases [] select_descriptor group_descriptor = Inr ()"
| "check_aliases (a # rest) select_descriptor group_descriptor =
     (if map_of group_descriptor a = None then
        (case map_of select_descriptor a of
           None \<Rightarrow> Inl AttributeError
         | Some select_field \<Rightarrow>
             if field_type select_field \<noteq> AGGREGATE \<and> visible select_field then
               Inl (QueryException (UngroupedSelectField a))
             else check_aliases rest select_descriptor group_descriptor)
      else check_aliases rest select_descriptor group_descriptor)"

text \<open>
  Lines 161-176, after the loops over \<open>select\<close> and \<open>where\<close>. Modelled from the spec:
  \<open>assign_descriptor\<close> (ssql/operators.py, not among the sources) "attaches the output
  descriptor to the tree root"; the result is the root with the descriptor. \<open>None\<close> and a
  string have no such method.
\<close>

definition group_and_assign ::
  "QueryBuilder \<Rightarrow> TupleDescriptor \<Rightarrow> TupleDescriptor \<Rightarrow> FieldDescriptor list \<Rightarrow> tok list
     \<Rightarrow> tok list option \<Rightarrow> tree \<Rightarrow> nat \<Rightarrow> error + ((tree \<times> TupleDescriptor) \<times> nat)" where
  "group_and_assign b tuple_descriptor select_descriptor aggregates groupby window t n =
     (if 0 < length aggregates then
        (case window of
           None \<Rightarrow> Inl (QueryException AggregateWithoutWindow)
         | Some w \<Rightarrow>
             (case describe_fields b tuple_descriptor True groupby [] n of
                Inl e \<Rightarrow> Inl e
              | Inr (group_descriptor, n') \<Rightarrow>
                  (case check_aliases (aliases select_descriptor) select_descriptor group_descriptor of
                     Inl e \<Rightarrow> Inl e
                   | Inr u \<Rightarrow>
                       Inr ((GroupBy t group_descriptor aggregates w, select_descriptor), n'))))
      else
        (case t of
           NoneValue \<Rightarrow> Inl AttributeError
         | StrValue s \<Rightarrow> Inl AttributeError
         | _ \<Rightarrow> Inr ((t, select_descriptor), n)))"

text \<open>
  \<open>__add_select_and_aggregate\<close>, lines 131-143: the fields of the three clauses are
  resolved against the built-in schema and their references verified. \<open>groupby[1:][0]\<close>
  raises IndexError when there is no such element. The chain over \<open>select\<close>, \<open>where\<close> and
  \<open>groupby\<close> is read after the empty strings have been removed from \<open>groupby\<close>. The result
  is \<open>tuple_descriptor\<close>, the fields of the three clauses as the cleaning left them, and
  the counter.
\<close>

definition collect_and_verify ::
  "QueryBuilder \<Rightarrow> tok \<Rightarrow> tok list \<Rightarrow> tok list \<Rightarrow> nat
     \<Rightarrow> (error + (TupleDescriptor \<times> tok list \<times> tok list \<times> tok list \<times> nat)) option" where
  "collect_and_verify b select groupby where_fields n =
     (case (if groupby \<noteq> [Tok []] then
              (case drop 1 groupby of [] \<Rightarrow> Inl IndexError | g # gs \<Rightarrow> Inr g)
            else Inr (Grp groupby)) of
        Inl e \<Rightarrow> Some (Inl e)
      | Inr g \<Rightarrow>
     (case remove_all g (EMPTY_STRING (tokens b)) of
        Inl e \<Rightarrow> Some (Inl e)
      | Inr g' \<Rightarrow>
     (case collect_fields b (as_list select) [] [] n of
        Inl e \<Rightarrow> Some (Inl e)
      | Inr (ftv1, td1, select', n1) \<Rightarrow>
     (case collect_fields b where_fields ftv1 td1 n1 of
        Inl e \<Rightarrow> Some (Inl e)
      | Inr (ftv2, td2, where', n2) \<Rightarrow>
     (case (if groupby \<noteq> [Tok []] then collect_fields b (as_list g') ftv2 td2 n2
            else Inr (ftv2, td2, as_list g', n2)) of
        Inl e \<Rightarrow> Some (Inl e)
      | Inr (fields_to_verify, td3, groupby', n3) \<Rightarrow>
     Option.bind (verify_fields fields_to_verify td3)
       (\<lambda>r. case r of
          Inl e \<Rightarrow> Some (Inl e)
        | Inr tuple_descriptor \<Rightarrow>
            Some (Inr (tuple_descriptor, select', where', groupby', n3))))))))"

text \<open>
  Lines 131-160: everything before the test on \<open>aggregates\<close>. The result is
  \<open>tuple_descriptor\<close>, \<open>select_descriptor\<close>, \<open>aggregates\<close>, the fields of \<open>groupby\<close> and the
  counter.
\<close>

definition resolve_fields ::
  "QueryBuilder \<Rightarrow> tok \<Rightarrow> tok list \<Rightarrow> tok list \<Rightarrow> nat
     \<Rightarrow> (error + (TupleDescriptor \<times> TupleDescriptor \<times> FieldDescriptor list \<times> tok list \<times> nat)) option" where
  "resolve_fields b select groupby where_fields n =
     Option.bind (collect_and_verify b select groupby where_fields n)
       (\<lambda>r. case r of
          Inl e \<Rightarrow> Some (Inl e)
        | Inr (tuple_descriptor, select', where', groupby', n3) \<Rightarrow>
     (case select_fields b tuple_descriptor select' [] [] n3 of
        Inl e \<Rightarrow> Some (Inl e)
      | Inr (sd, aggregates, n4) \<Rightarrow>
     (case describe_fields b tuple_descriptor False where' sd n4 of
        Inl e \<Rightarrow> Some (Inl e)
      | Inr (select_descriptor, n5) \<Rightarrow>
          Some (Inr (tuple_descriptor, select_descriptor, aggregates, groupby', n5)))))"

text \<open>\<open>__add_select_and_aggregate\<close>: the two parts in sequence.\<close>

definition add_select_and_aggregate ::
  "QueryBuilder \<Rightarrow> tok \<Rightarrow> tok list \<Rightarrow> tok list \<Rightarrow> tok list option \<Rightarrow> tree \<Rightarrow> nat
     \<Rightarrow> (error + ((tree \<times> TupleDescriptor) \<times> nat)) option" where
  "add_select_and_aggregate b select groupby where_fields window t n =
     Option.bind (resolve_fields b select groupby where_fields n)
       (\<lambda>r. case r of
          Inl e \<Rightarrow> Some (Inl e)
        | Inr (tuple_descriptor, select_descriptor, aggregates, groupby', n') \<Rightarrow>
            Some (group_and_assign b tuple_descriptor select_descriptor aggregates groupby'
                    window t n'))"

subsection \<open>The query\<close>

text \<open>
  The parser (ssql/ssql_parser.py) is not among the sources: \<open>parsed\<close> holds what
  \<open>asList()\<close> returns for each clause of \<open>self.parser.parseString(query_str)\<close>.
\<close>

record parsed =
  sources :: "tok list"
  select :: "tok list"
  where_clause :: "tok list"
  groupby :: "tok list"
  window :: "tok list"

record Query =
  query_tree :: tree
  query_descriptor :: TupleDescriptor
  query_source :: StatusSource

definition get_tree ::
  "QueryBuilder \<Rightarrow> parsed \<Rightarrow> nat \<Rightarrow> (error + ((tree \<times> TupleDescriptor) \<times> nat)) option" where
  "get_tree b p n =
     (case drop 1 (select p) of
        [] \<Rightarrow> Some (Inl IndexError)
      | sel # rest \<Rightarrow>
          (case parse_where b (where_clause p) n of
             Inl e \<Rightarrow> Some (Inl e)
           | Inr (t, where_fields, n') \<Rightarrow>
               add_select_and_aggregate b sel (groupby p) where_fields
                 (if window p = [Tok []] then None else Some (drop 1 (window p))) t n'))"

definition build :: "QueryBuilder \<Rightarrow> parsed \<Rightarrow> nat \<Rightarrow> (error + (Query \<times> nat)) option" where
  "build b p n =
     (case get_source (tokens b) (sources p) of
        Inl e \<Rightarrow> Some (Inl e)
      | Inr source \<Rightarrow>
          Option.bind (get_tree b p n)
            (\<lambda>r. case r of
               Inl e \<Rightarrow> Some (Inl e)
             | Inr ((t, descriptor), n') \<Rightarrow>
                 Some (Inr (\<lparr>query_tree = t, query_descriptor = descriptor, query_source = source\<rparr>, n'))))"

subsection \<open>A builder for the examples\<close>

text \<open>
  Token strings as the spec writes them (\<open>contains\<close>, \<open>==\<close>, \<open>!=\<close>), a schema with the
  native fields \<open>text\<close> and \<open>lang\<close>, the aggregate \<open>count\<close> and the function \<open>floor\<close>; its
  tables treat a repeated alias as \<open>merge_descriptor\<close> does.
\<close>

definition example_tokens :: query_tokens where
  "example_tokens =
     \<lparr>TWITTER = ''twitter'', TWITTER_SAMPLE = ''twitter_sample'', LPAREN = ''('', RPAREN = '')'',
      AND_TOKEN = ''and'', OR_TOKEN = ''or'', CONTAINS = ''contains'', AS = ''as'',
      EQUALS = ''=='', EXCLAIM_EQUALS = ''!='', WHERE_CONDITION = ''where_condition'',
      EMPTY_STRING = []\<rparr>"

definition example_builder :: QueryBuilder where
  "example_builder =
     \<lparr>tokens = example_tokens,
      get_aggregate_factory =
        (\<lambda>t. if t = Tok ''count'' then Some (AggregateFactory ''count'') else None),
      function_registry =
        (\<lambda>t. if t = Tok ''floor'' then Some (RegisteredFunction ''floor'') else None),
      twitter_td =
        [(''text'', new_descriptor (Tok ''text'') [] RAW None None True),
         (''lang'', new_descriptor (Tok ''lang'') [] RAW None None True)],
      add_existing = merge_descriptor\<rparr>"

declare parse_field.simps [simp del]

declare parse_clauses.simps [simp del]

section \<open>Properties\<close>

subsection \<open>Source classification\<close>

text \<open>
  Claim C8. The source is classified from the first source token alone (the tokens after
  it are arbitrary): the filter source when it equals \<open>QueryTokens.TWITTER\<close>, else the
  sample source when \<open>QueryTokens.TWITTER_SAMPLE\<close> is a prefix of it, else the compilation
  fails with the unknown-source error; whenever \<open>build\<close> returns a query, its source is
  this classification, and for an unknown source \<open>build\<close> returns the error and no tree.
\<close>

theorem build_source_classification:
  assumes "sources p = Tok source # rest"
  shows "get_source (tokens b) (sources p) =
           (if source = TWITTER (tokens b) then Inr TWITTER_FILTER
            else if prefix (TWITTER_SAMPLE (tokens b)) source then Inr TWITTER_SAMPLE_SOURCE
            else Inl (QueryException (UnknownSource source)))
       \<and> (\<forall>q n'. build b p n = Some (Inr (q, n')) \<longrightarrow>
            get_source (tokens b) (sources p) = Inr (query_source q))
       \<and> (source \<noteq> TWITTER (tokens b) \<and> \<not> prefix (TWITTER_SAMPLE (tokens b)) source \<longrightarrow>
            build b p n = Some (Inl (QueryException (UnknownSource source))))"
proof (intro conjI allI impI)
  show "get_source (tokens b) (sources p) =
           (if source = TWITTER (tokens b) then Inr TWITTER_FILTER
            else if prefix (TWITTER_SAMPLE (tokens b)) source then Inr TWITTER_SAMPLE_SOURCE
            else Inl (QueryException (UnknownSource source)))"
    using assms by simp
next
  fix q n'
  assume "build b p n = Some (Inr (q, n'))"
  then show "get_source (tokens b) (sources p) = Inr (query_source q)"
    by (auto simp: build_def split: sum.splits Option.bind_splits)
next
  assume "source \<noteq> TWITTER (tokens b) \<and> \<not> prefix (TWITTER_SAMPLE (tokens b)) source"
  with assms show "build b p n = Some (Inl (QueryException (UnknownSource source)))"
    by (simp add: build_def)
qed

theorem build_source_classification_witness:
  "build example_builder
     \<lparr>sources = [Tok ''bogus_source'', Tok ''twitter''], select = [], where_clause = [],
      groupby = [], window = []\<rparr> 0
   = Some (Inl (QueryException (UnknownSource ''bogus_source'')))"
proof -
  let ?p = "\<lparr>sources = [Tok ''bogus_source'', Tok ''twitter''], select = [], where_clause = [],
      groupby = [], window = []\<rparr>"
  have h: "sources ?p = Tok ''bogus_source'' # [Tok ''twitter'']"
    by simp
  have c: "''bogus_source'' \<noteq> TWITTER (tokens example_builder)
      \<and> \<not> prefix (TWITTER_SAMPLE (tokens example_builder)) ''bogus_source''"
    by (simp add: example_builder_def example_tokens_def)
  from build_source_classification [OF h, of example_builder 0, THEN conjunct2, THEN conjunct2, THEN mp, OF c]
  show ?thesis .
qed

text \<open>Evaluation of the builder on a list whose top level holds no parenthesis token.\<close>

lemma clean_list_id:
  "Tok (LPAREN qt) \<notin> set ts \<Longrightarrow> Tok (RPAREN qt) \<notin> set ts \<Longrightarrow> clean_list qt (Grp ts) = Inr (Grp ts)"
  by (auto simp: clean_list_Grp filter_id_conv)

lemma parse_clauses_mixed:
  assumes "Tok (LPAREN (tokens b)) \<notin> set (c # cs)" and "Tok (RPAREN (tokens b)) \<notin> set (c # cs)"
    and "c \<noteq> Tok (WHERE_CONDITION (tokens b))"
  shows "parse_clauses b (Grp (c # cs)) wfs n =
           (case parse_loop b (c # cs) [] [] wfs n of
              Inl e \<Rightarrow> Inl e
            | Inr (ors, cs', wfs', n') \<Rightarrow>
                Inr (if length ors = 1 then ors ! 0 else Or ors, Grp cs', wfs', n'))"
  using assms by (subst parse_clauses.simps) (simp add: clean_list_id del: parse_loop.simps)

lemma parse_clauses_condition:
  assumes "Tok (LPAREN (tokens b)) \<notin> set cs" and "Tok (RPAREN (tokens b)) \<notin> set cs"
    and "WHERE_CONDITION (tokens b) \<noteq> LPAREN (tokens b)"
    and "WHERE_CONDITION (tokens b) \<noteq> RPAREN (tokens b)"
  shows "parse_clauses b (Grp (Tok (WHERE_CONDITION (tokens b)) # cs)) wfs n =
           (case parse_operator b cs wfs n of
              Inl e \<Rightarrow> Inl e
            | Inr (t, cs', wfs', n') \<Rightarrow> Inr (t, Grp (Tok (WHERE_CONDITION (tokens b)) # cs'), wfs', n'))"
  using assms by (subst parse_clauses.simps) (simp add: clean_list_id)

subsection \<open>The predicate tree builder\<close>

text \<open>
  Claim C1. For four operand groups joined by AND, OR, AND (the separators being distinct
  tokens that the cleaning keeps), whatever the operands parse to in sequence, the tree is
  \<open>Or [And [A, B], And [C, D]]\<close>: each AND group is one flat node. Two operands joined by
  AND give the one group unwrapped, \<open>And [A, B]\<close>; joined by OR they stay bare inside one
  \<open>Or\<close>; a lone operand is returned as it is.
\<close>

theorem and_groups_flat:
  assumes "AND_TOKEN (tokens b) \<noteq> OR_TOKEN (tokens b)"
    and "AND_TOKEN (tokens b) \<noteq> LPAREN (tokens b)" and "AND_TOKEN (tokens b) \<noteq> RPAREN (tokens b)"
    and "OR_TOKEN (tokens b) \<noteq> LPAREN (tokens b)" and "OR_TOKEN (tokens b) \<noteq> RPAREN (tokens b)"
    and "parse_clauses b (Grp a) wfs n = Inr (ta, a', wfs1, n1)"
    and "parse_clauses b (Grp b2) wfs1 n1 = Inr (tb, b', wfs2, n2)"
    and "parse_clauses b (Grp c) wfs2 n2 = Inr (tc, c', wfs3, n3)"
    and "parse_clauses b (Grp d) wfs3 n3 = Inr (td, d', wfs4, n4)"
  shows "parse_clauses b
           (Grp [Grp a, Tok (AND_TOKEN (tokens b)), Grp b2, Tok (OR_TOKEN (tokens b)),
                 Grp c, Tok (AND_TOKEN (tokens b)), Grp d]) wfs n
         = Inr (Or [And [ta, tb], And [tc, td]],
                Grp [a', Tok (AND_TOKEN (tokens b)), b', Tok (OR_TOKEN (tokens b)),
                     c', Tok (AND_TOKEN (tokens b)), d'], wfs4, n4)
       \<and> parse_clauses b (Grp [Grp a, Tok (AND_TOKEN (tokens b)), Grp b2]) wfs n
         = Inr (And [ta, tb], Grp [a', Tok (AND_TOKEN (tokens b)), b'], wfs2, n2)
       \<and> parse_clauses b (Grp [Grp a, Tok (OR_TOKEN (tokens b)), Grp b2]) wfs n
         = Inr (Or [ta, tb], Grp [a', Tok (OR_TOKEN (tokens b)), b'], wfs2, n2)
       \<and> parse_clauses b (Grp [Grp a]) wfs n = Inr (ta, Grp [a'], wfs1, n1)"
  using assms by (simp add: parse_clauses_mixed and_or_single_def)

theorem and_groups_flat_witness:
  "parse_clauses example_builder
     (Grp [Grp [Tok ''where_condition'', Grp [Tok ''text''], Tok ''contains'', Tok ''foo''],
           Tok ''and'',
           Grp [Tok ''where_condition'', Grp [Tok ''lang''], Tok ''=='', Tok ''en''],
           Tok ''or'',
           Grp [Tok ''where_condition'', Grp [Tok ''text''], Tok ''!='', Tok ''bar''],
           Tok ''and'',
           Grp [Tok ''where_condition'', Grp [Tok ''lang''], Tok ''contains'', Tok ''f'']]) [] 0
   = Inr (Or [And [Contains (Tok ''text'') (Tok ''foo''), Equals (Tok ''lang'') (Tok ''en'')],
              And [Not (Equals (Tok ''text'') (Tok ''bar'')), Contains (Tok ''lang'') (Tok ''f'')]],
          Grp [Grp [Tok ''where_condition'', Grp [Tok ''text'', Tok ''as'', Tok ''text''],
                    Tok ''contains'', Tok ''foo''],
               Tok ''and'',
               Grp [Tok ''where_condition'', Grp [Tok ''lang'', Tok ''as'', Tok ''lang''],
                    Tok ''=='', Tok ''en''],
               Tok ''or'',
               Grp [Tok ''where_condition'', Grp [Tok ''text'', Tok ''as'', Tok ''text''],
                    Tok ''!='', Tok ''bar''],
               Tok ''and'',
               Grp [Tok ''where_condition'', Grp [Tok ''lang'', Tok ''as'', Tok ''lang''],
                    Tok ''contains'', Tok ''f'']],
          [Grp [Tok ''text'', Tok ''as'', Tok ''text''], Grp [Tok ''lang'', Tok ''as'', Tok ''lang''],
           Grp [Tok ''text'', Tok ''as'', Tok ''text''], Grp [Tok ''lang'', Tok ''as'', Tok ''lang'']],
          0)"
proof -
  let ?b = example_builder
  let ?t = "Grp [Tok ''text'', Tok ''as'', Tok ''text'']"
  let ?l = "Grp [Tok ''lang'', Tok ''as'', Tok ''lang'']"
  have t: "AND_TOKEN (tokens ?b) = ''and''" "OR_TOKEN (tokens ?b) = ''or''"
    "LPAREN (tokens ?b) = ''(''" "RPAREN (tokens ?b) = '')''"
    by (simp_all add: example_builder_def example_tokens_def)
  have d: "AND_TOKEN (tokens ?b) \<noteq> OR_TOKEN (tokens ?b)"
    "AND_TOKEN (tokens ?b) \<noteq> LPAREN (tokens ?b)" "AND_TOKEN (tokens ?b) \<noteq> RPAREN (tokens ?b)"
    "OR_TOKEN (tokens ?b) \<noteq> LPAREN (tokens ?b)" "OR_TOKEN (tokens ?b) \<noteq> RPAREN (tokens ?b)"
    by (simp_all add: t)
  have a: "parse_clauses ?b
      (Grp [Tok ''where_condition'', Grp [Tok ''text''], Tok ''contains'', Tok ''foo'']) [] 0
    = Inr (Contains (Tok ''text'') (Tok ''foo''),
           Grp [Tok ''where_condition'', ?t, Tok ''contains'', Tok ''foo''], [?t], 0)"
    by code_simp
  have b: "parse_clauses ?b
      (Grp [Tok ''where_condition'', Grp [Tok ''lang''], Tok ''=='', Tok ''en'']) [?t] 0
    = Inr (Equals (Tok ''lang'') (Tok ''en''),
           Grp [Tok ''where_condition'', ?l, Tok ''=='', Tok ''en''], [?t, ?l], 0)"
    by code_simp
  have c: "parse_clauses ?b
      (Grp [Tok ''where_condition'', Grp [Tok ''text''], Tok ''!='', Tok ''bar'']) [?t, ?l] 0
    = Inr (Not (Equals (Tok ''text'') (Tok ''bar'')),
           Grp [Tok ''where_condition'', ?t, Tok ''!='', Tok ''bar''], [?t, ?l, ?t], 0)"
    by code_simp
  have e: "parse_clauses ?b
      (Grp [Tok ''where_condition'', Grp [Tok ''lang''], Tok ''contains'', Tok ''f'']) [?t, ?l, ?t] 0
    = Inr (Contains (Tok ''lang'') (Tok ''f''),
           Grp [Tok ''where_condition'', ?l, Tok ''contains'', Tok ''f''], [?t, ?l, ?t, ?l], 0)"
    by code_simp
  from and_groups_flat [OF d a b c e, THEN conjunct1] show ?thesis
    by (simp only: t)
qed

text \<open>
  Claim C9. A comparison whose token list (as the dispatcher receives it) has not exactly
  three tokens, or whose middle token is none of the three operator tokens, yields \<open>None\<close>
  with no error and no change of the where-fields or the counter; joined to another operand
  by AND or OR, the \<open>None\<close> is a child of the \<open>And\<close> or \<open>Or\<close> node.
\<close>

theorem unmatched_comparison_is_none:
  assumes "length clause \<noteq> 3 \<or>
             (clause ! 1 \<noteq> Tok (CONTAINS (tokens b)) \<and> clause ! 1 \<noteq> Tok (EQUALS (tokens b))
              \<and> clause ! 1 \<noteq> Tok (EXCLAIM_EQUALS (tokens b)))"
    and "Tok (LPAREN (tokens b)) \<notin> set clause" and "Tok (RPAREN (tokens b)) \<notin> set clause"
    and "WHERE_CONDITION (tokens b) \<noteq> LPAREN (tokens b)"
    and "WHERE_CONDITION (tokens b) \<noteq> RPAREN (tokens b)"
    and "AND_TOKEN (tokens b) \<noteq> OR_TOKEN (tokens b)"
    and "AND_TOKEN (tokens b) \<noteq> LPAREN (tokens b)" and "AND_TOKEN (tokens b) \<noteq> RPAREN (tokens b)"
    and "OR_TOKEN (tokens b) \<noteq> LPAREN (tokens b)" and "OR_TOKEN (tokens b) \<noteq> RPAREN (tokens b)"
    and "parse_clauses b (Grp other) wfs n = Inr (t, other', wfs', n')"
  shows "parse_operator b clause wfs n = Inr (NoneValue, clause, wfs, n)
       \<and> parse_clauses b (Grp (Tok (WHERE_CONDITION (tokens b)) # clause)) wfs n
         = Inr (NoneValue, Grp (Tok (WHERE_CONDITION (tokens b)) # clause), wfs, n)
       \<and> parse_clauses b
           (Grp [Grp (Tok (WHERE_CONDITION (tokens b)) # clause), Tok (AND_TOKEN (tokens b)), Grp other])
           wfs n
         = Inr (And [NoneValue, t],
                Grp [Grp (Tok (WHERE_CONDITION (tokens b)) # clause), Tok (AND_TOKEN (tokens b)), other'],
                wfs', n')
       \<and> parse_clauses b
           (Grp [Grp (Tok (WHERE_CONDITION (tokens b)) # clause), Tok (OR_TOKEN (tokens b)), Grp other])
           wfs n
         = Inr (Or [NoneValue, t],
                Grp [Grp (Tok (WHERE_CONDITION (tokens b)) # clause), Tok (OR_TOKEN (tokens b)), other'],
                wfs', n')"
proof -
  have op: "parse_operator b clause wfs n = Inr (NoneValue, clause, wfs, n)"
    using assms(1) by (auto simp: parse_operator_def)
  have cond: "parse_clauses b (Grp (Tok (WHERE_CONDITION (tokens b)) # clause)) wfs n
         = Inr (NoneValue, Grp (Tok (WHERE_CONDITION (tokens b)) # clause), wfs, n)"
    using assms(2-5) by (simp add: parse_clauses_condition op)
  show ?thesis
    using assms(6-11) by (simp add: op cond parse_clauses_mixed and_or_single_def)
qed

theorem unmatched_comparison_is_none_witness:
  "parse_clauses example_builder
     (Grp [Grp [Tok ''where_condition'', Grp [Tok ''text''], Tok ''like'', Tok ''foo''],
           Tok ''and'',
           Grp [Tok ''where_condition'', Grp [Tok ''lang''], Tok ''=='', Tok ''en'']]) [] 0
   = Inr (And [NoneValue, Equals (Tok ''lang'') (Tok ''en'')],
          Grp [Grp [Tok ''where_condition'', Grp [Tok ''text''], Tok ''like'', Tok ''foo''],
               Tok ''and'',
               Grp [Tok ''where_condition'', Grp [Tok ''lang'', Tok ''as'', Tok ''lang''],
                    Tok ''=='', Tok ''en'']],
          [Grp [Tok ''lang'', Tok ''as'', Tok ''lang'']], 0)"
proof -
  let ?b = example_builder
  let ?clause = "[Grp [Tok ''text''], Tok ''like'', Tok ''foo'']"
  have t: "AND_TOKEN (tokens ?b) = ''and''" "OR_TOKEN (tokens ?b) = ''or''"
    "LPAREN (tokens ?b) = ''(''" "RPAREN (tokens ?b) = '')''"
    "WHERE_CONDITION (tokens ?b) = ''where_condition''" "CONTAINS (tokens ?b) = ''contains''"
    "EQUALS (tokens ?b) = ''==''" "EXCLAIM_EQUALS (tokens ?b) = ''!=''"
    by (simp_all add: example_builder_def example_tokens_def)
  have bad: "length ?clause \<noteq> 3 \<or>
             (?clause ! 1 \<noteq> Tok (CONTAINS (tokens ?b)) \<and> ?clause ! 1 \<noteq> Tok (EQUALS (tokens ?b))
              \<and> ?clause ! 1 \<noteq> Tok (EXCLAIM_EQUALS (tokens ?b)))"
    by (simp add: t)
  have p: "Tok (LPAREN (tokens ?b)) \<notin> set ?clause" "Tok (RPAREN (tokens ?b)) \<notin> set ?clause"
    by (simp_all add: t)
  have d: "WHERE_CONDITION (tokens ?b) \<noteq> LPAREN (tokens ?b)"
    "WHERE_CONDITION (tokens ?b) \<noteq> RPAREN (tokens ?b)"
    "AND_TOKEN (tokens ?b) \<noteq> OR_TOKEN (tokens ?b)"
    "AND_TOKEN (tokens ?b) \<noteq> LPAREN (tokens ?b)" "AND_TOKEN (tokens ?b) \<noteq> RPAREN (tokens ?b)"
    "OR_TOKEN (tokens ?b) \<noteq> LPAREN (tokens ?b)" "OR_TOKEN (tokens ?b) \<noteq> RPAREN (tokens ?b)"
    by (simp_all add: t)
  have o: "parse_clauses ?b
      (Grp [Tok ''where_condition'', Grp [Tok ''lang''], Tok ''=='', Tok ''en'']) [] 0
    = Inr (Equals (Tok ''lang'') (Tok ''en''),
           Grp [Tok ''where_condition'', Grp [Tok ''lang'', Tok ''as'', Tok ''lang''], Tok ''=='', Tok ''en''],
           [Grp [Tok ''lang'', Tok ''as'', Tok ''lang'']], 0)"
    by code_simp
  from unmatched_comparison_is_none [OF bad p d o, THEN conjunct2, THEN conjunct2, THEN conjunct1]
  show ?thesis
    by (simp only: t)
qed

subsection \<open>Aggregation, grouping and window\<close>

text \<open>
  Neither of the two errors of the aggregation step is raised anywhere else: the field
  resolver, the descriptor table and the verifier raise other errors.
\<close>

definition error_of_fields :: "error \<Rightarrow> bool" where
  "error_of_fields e = (e \<noteq> QueryException AggregateWithoutWindow \<and> (\<forall>a. e \<noteq> QueryException (UngroupedSelectField a)))"

lemma clean_list_error: "clean_list qt l = Inl e \<Longrightarrow> e = AttributeError"
  by (auto simp: clean_list_def remove_all_def split: tok.splits if_splits sum.splits)

lemma get_descriptor_error: "get_descriptor td a = Inl e \<Longrightarrow> e = TypeError"
  by (auto simp: get_descriptor_def split: tok.splits)

lemma parse_field_errors:
  "parse_field b td a v field n = Inl e \<Longrightarrow> error_of_fields e"
  "parse_underlying b td us n = Inl e \<Longrightarrow> error_of_fields e"
proof (induction b td a v field n and b td us n arbitrary: e and e rule: parse_field_parse_underlying.induct)
  case (1 b td aoc mv field n)
  show ?case
  proof (cases "clean_list (tokens b) field")
    case (Inl e')
    with "1.prems" have "e = AttributeError"
      by (subst (asm) parse_field.simps) (auto dest: clean_list_error)
    then show ?thesis by (simp add: error_of_fields_def)
  next
    case (Inr cleaned)
    let ?fld = "strip_alias (tokens b) (as_list cleaned)"
    consider (single) "length ?fld = 1" | (multi) "1 < length ?fld" | (empty) "length ?fld = 0"
      by linarith
    then show ?thesis
    proof cases
      case single
      with "1.prems" Inr have "e = TypeError"
        by (subst (asm) parse_field.simps)
          (auto split: sum.splits option.splits dest: get_descriptor_error)
      then show ?thesis by (simp add: error_of_fields_def)
    next
      case multi
      show ?thesis
      proof (cases "\<not> has_alias (tokens b) (as_list cleaned) \<and> aoc")
        case True
        with "1.prems" Inr multi have "e = QueryException (MissingAlias ?fld)"
          by (subst (asm) parse_field.simps) auto
        then show ?thesis by (simp add: error_of_fields_def)
      next
        case False
        let ?n = "if has_alias (tokens b) (as_list cleaned) then n else n + 1"
        show ?thesis
        proof (cases "parse_underlying b td (tl ?fld) ?n")
          case (Inl e')
          with "1.prems" Inr multi False have "e = e'"
            by (subst (asm) parse_field.simps) (auto split: if_splits)
          moreover have "error_of_fields e'"
            using "1.IH" [OF Inr _ _ False Inl] multi by simp
          ultimately show ?thesis by simp
        next
          case r: (Inr res)
          with "1.prems" Inr multi False have "e = QueryException (UnknownCallable (?fld ! 0))"
            by (subst (asm) parse_field.simps) (auto split: if_splits option.splits prod.splits)
          then show ?thesis by (simp add: error_of_fields_def)
        qed
      qed
    next
      case empty
      with "1.prems" Inr have "e = QueryException (EmptyFieldClause (as_list field))"
        by (subst (asm) parse_field.simps) auto
      then show ?thesis by (simp add: error_of_fields_def)
    qed
  qed
next
  case (2 b td n)
  then show ?case by simp
next
  case (3 b td underlying rest n)
  show ?case
  proof (cases "parse_field b td False False underlying n")
    case (Inl e')
    with "3.prems" have "e = e'" by simp
    with "3.IH"(1) [OF Inl] show ?thesis by simp
  next
    case (Inr res)
    obtain fds pv u' n1 where res: "res = (fds, pv, u', n1)"
      by (cases res) auto
    show ?thesis
    proof (cases fds)
      case Nil
      with "3.prems" Inr res have "e = IndexError" by simp
      then show ?thesis by (simp add: error_of_fields_def)
    next
      case (Cons d ds)
      with "3.prems" Inr res have "parse_underlying b td rest n1 = Inl e"
        by (auto split: sum.splits)
      with "3.IH"(2) Inr res Cons show ?thesis by blast
    qed
  qed
qed

lemma add_descriptor_not_query: "add_descriptor ae td d \<noteq> Inl (QueryException q)"
  by (auto simp: add_descriptor_def split: tok.splits)

lemma add_descriptor_list_not_query: "add_descriptor_list ae td ds \<noteq> Inl (QueryException q)"
  by (induction ds arbitrary: td) (auto simp: add_descriptor_not_query split: sum.splits)

lemma describe_fields_errors:
  "describe_fields b td v fs descriptor n = Inl e \<Longrightarrow> error_of_fields e"
proof (induction fs arbitrary: descriptor n)
  case Nil
  then show ?case by simp
next
  case (Cons f fs)
  then show ?case
    by (auto split: sum.splits prod.splits dest: parse_field_errors(1)
        simp: error_of_fields_def add_descriptor_list_not_query)
qed

lemma select_fields_errors:
  "select_fields b td fs sd aggs n = Inl e \<Longrightarrow> error_of_fields e"
proof (induction fs arbitrary: sd aggs n)
  case Nil
  then show ?case by simp
next
  case (Cons f fs)
  then show ?case
    by (auto split: sum.splits prod.splits list.splits dest: parse_field_errors(1)
        simp: error_of_fields_def add_descriptor_list_not_query add_descriptor_not_query)
qed

lemma collect_fields_errors:
  "collect_fields b fs ftv td n = Inl e \<Longrightarrow> error_of_fields e"
proof (induction fs arbitrary: ftv td n)
  case Nil
  then show ?case by simp
next
  case (Cons f fs)
  then show ?case
    by (auto split: sum.splits prod.splits dest: parse_field_errors(1)
        simp: error_of_fields_def add_descriptor_list_not_query)
qed

lemma verify_and_fix_field_errors:
  assumes "verify_and_fix_field field td = Some r"
  shows "\<forall>e. r = Inl e \<longrightarrow> error_of_fields e"
  by (rule verify_and_fix_field.raw_induct
        [where P = "\<lambda>field td r. \<forall>e. r = Inl e \<longrightarrow> error_of_fields e", OF _ assms])
     (auto split: tok.splits option.splits if_splits list.splits sum.splits Option.bind_splits
        simp: error_of_fields_def)

lemma verify_fields_errors:
  "verify_fields fs td = Some (Inl e) \<Longrightarrow> error_of_fields e"
proof (induction fs arbitrary: td)
  case Nil
  then show ?case by simp
next
  case (Cons f fs)
  then show ?case
    by (auto split: sum.splits Option.bind_splits dest: verify_and_fix_field_errors)
qed

lemma remove_all_error: "remove_all l token = Inl e \<Longrightarrow> e = AttributeError"
  by (auto simp: remove_all_def split: tok.splits if_splits)

lemma resolve_fields_errors:
  assumes "resolve_fields b sel gb wfs n = Some (Inl e)"
  shows "error_of_fields e"
  using assms unfolding resolve_fields_def collect_and_verify_def
  by (auto split: sum.splits prod.splits if_splits list.splits Option.bind_splits
      dest!: remove_all_error collect_fields_errors verify_fields_errors select_fields_errors
        describe_fields_errors
      simp: error_of_fields_def)

text \<open>An alias fails the check of lines 170-172: no group-by entry, not an aggregate, visible.\<close>

definition ungrouped :: "TupleDescriptor \<Rightarrow> TupleDescriptor \<Rightarrow> string \<Rightarrow> bool" where
  "ungrouped sd gd a =
     (map_of gd a = None \<and>
      (case map_of sd a of None \<Rightarrow> False | Some d \<Rightarrow> field_type d \<noteq> AGGREGATE \<and> visible d))"

lemma check_aliases_find:
  "set al \<subseteq> fst ` set sd \<Longrightarrow>
   check_aliases al sd gd =
     (case find (ungrouped sd gd) al of
        None \<Rightarrow> Inr ()
      | Some a \<Rightarrow> Inl (QueryException (UngroupedSelectField a)))"
proof (induction al)
  case Nil
  then show ?case by simp
next
  case (Cons a al)
  from Cons.prems have "map_of sd a \<noteq> None"
    by (simp add: map_of_eq_None_iff)
  with Cons show ?case
    by (auto simp: ungrouped_def split: option.splits)
qed

lemma check_aliases_not_window:
  "check_aliases al sd gd \<noteq> Inl (QueryException AggregateWithoutWindow)"
  by (induction al) (auto split: option.splits)

text \<open>
  The select fields as lines 152-156 resolve them against the verified table: the first
  descriptor of each field, in order.
\<close>

fun select_descriptors ::
  "QueryBuilder \<Rightarrow> TupleDescriptor \<Rightarrow> tok list \<Rightarrow> nat \<Rightarrow> FieldDescriptor list" where
  "select_descriptors b tuple_descriptor [] n = []"
| "select_descriptors b tuple_descriptor (field # rest) n =
     (case parse_field b tuple_descriptor True True field n of
        Inr (d # ds, verify, field', n1) \<Rightarrow> d # select_descriptors b tuple_descriptor rest n1
      | _ \<Rightarrow> [])"

lemma select_fields_aggregates:
  "select_fields b td fs sd aggs n = Inr (sd', aggs', n') \<Longrightarrow>
   aggs' = aggs @ filter (\<lambda>d. field_type d = AGGREGATE) (select_descriptors b td fs n)
   \<and> length (select_descriptors b td fs n) = length fs"
proof (induction fs arbitrary: sd aggs n)
  case Nil
  then show ?case by simp
next
  case (Cons f fs)
  from Cons.prems obtain d ds ver f' n1 sd1 where
    p: "parse_field b td True True f n = Inr (d # ds, ver, f', n1)"
    and r: "select_fields b td fs sd1
              (if field_type d = AGGREGATE then aggs @ [d] else aggs) n1 = Inr (sd', aggs', n')"
    by (auto split: sum.splits prod.splits list.splits)
  from Cons.IH [OF r] p show ?case
    by simp
qed

lemma resolve_fields_aggregates:
  assumes "resolve_fields b sel gb wfs n = Some (Inr (td, sd, aggs, gb', n'))"
  shows "\<exists>sel' wh' n3.
           collect_and_verify b sel gb wfs n = Some (Inr (td, sel', wh', gb', n3))
           \<and> aggs = filter (\<lambda>d. field_type d = AGGREGATE) (select_descriptors b td sel' n3)
           \<and> length (select_descriptors b td sel' n3) = length sel'"
proof -
  from assms obtain sel' wh' n3 sd0 n4 where
    c: "collect_and_verify b sel gb wfs n = Some (Inr (td, sel', wh', gb', n3))"
    and s: "select_fields b td sel' [] [] n3 = Inr (sd0, aggs, n4)"
    unfolding resolve_fields_def
    by (auto split: sum.splits prod.splits Option.bind_splits)
  from select_fields_aggregates [OF s] c show ?thesis
    by auto
qed

lemma group_and_assign_window:
  "(group_and_assign b td sd aggs gb' win t n' = Inl (QueryException AggregateWithoutWindow))
   = (aggs \<noteq> [] \<and> win = None)"
  using describe_fields_errors [of b td True gb' "[]" n'] check_aliases_not_window
  by (auto simp: group_and_assign_def error_of_fields_def
      split: option.splits sum.splits prod.splits tree.splits)


text \<open>
  Claim C6, as the code has it. The compilation raises the aggregate-without-window error
  exactly when the fields of SELECT, WHERE and GROUP BY have been resolved and verified
  without error, at least one select field has then resolved to the aggregate type, and
  no window was given; an error of the resolution is raised first. The list \<open>aggregates\<close>
  holds the select fields of aggregate type, in order. With aggregates and a window, the
  group-by fields are resolved, and unless that or the check of the select aliases raises
  an error, the result is the grouped node over the predicate tree, with the group-by
  descriptor, the list \<open>aggregates\<close> and the window, carrying the select descriptor.
\<close>

theorem aggregate_requires_window:
  "((add_select_and_aggregate b sel gb wfs win t n
       = Some (Inl (QueryException AggregateWithoutWindow)))
    = (\<exists>td sel' wh' gb' n3 sd aggs n'.
         collect_and_verify b sel gb wfs n = Some (Inr (td, sel', wh', gb', n3))
         \<and> resolve_fields b sel gb wfs n = Some (Inr (td, sd, aggs, gb', n'))
         \<and> (\<exists>d \<in> set (select_descriptors b td sel' n3). field_type d = AGGREGATE)
         \<and> win = None))
   \<and> (\<forall>td sd aggs gb' n'.
         resolve_fields b sel gb wfs n = Some (Inr (td, sd, aggs, gb', n')) \<longrightarrow>
         (\<exists>sel' wh' n3.
            collect_and_verify b sel gb wfs n = Some (Inr (td, sel', wh', gb', n3))
            \<and> aggs = filter (\<lambda>d. field_type d = AGGREGATE) (select_descriptors b td sel' n3))
         \<and> (\<forall>w. aggs \<noteq> [] \<and> win = Some w \<longrightarrow>
               add_select_and_aggregate b sel gb wfs win t n =
                 (case describe_fields b td True gb' [] n' of
                    Inl e \<Rightarrow> Some (Inl e)
                  | Inr (gd, m) \<Rightarrow>
                      (case find (ungrouped sd gd) (aliases sd) of
                         None \<Rightarrow> Some (Inr ((GroupBy t gd aggs w, sd), m))
                       | Some a \<Rightarrow> Some (Inl (QueryException (UngroupedSelectField a)))))))"
proof (intro conjI allI impI)
  show "(add_select_and_aggregate b sel gb wfs win t n
       = Some (Inl (QueryException AggregateWithoutWindow)))
    = (\<exists>td sel' wh' gb' n3 sd aggs n'.
         collect_and_verify b sel gb wfs n = Some (Inr (td, sel', wh', gb', n3))
         \<and> resolve_fields b sel gb wfs n = Some (Inr (td, sd, aggs, gb', n'))
         \<and> (\<exists>d \<in> set (select_descriptors b td sel' n3). field_type d = AGGREGATE)
         \<and> win = None)" (is "?l = ?r")
  proof (cases "resolve_fields b sel gb wfs n")
    case None
    then show ?thesis by (simp add: add_select_and_aggregate_def)
  next
    case (Some r)
    show ?thesis
    proof (cases r)
      case (Inl e)
      with Some have "error_of_fields e" by (auto dest: resolve_fields_errors)
      with Some Inl show ?thesis
        by (auto simp: add_select_and_aggregate_def error_of_fields_def)
    next
      case (Inr res)
      obtain td sd aggs gb' n' where res: "res = (td, sd, aggs, gb', n')"
        by (cases res) auto
      from Some Inr res have rf: "resolve_fields b sel gb wfs n = Some (Inr (td, sd, aggs, gb', n'))"
        by simp
      from resolve_fields_aggregates [OF rf] obtain sel' wh' n3 where
        c: "collect_and_verify b sel gb wfs n = Some (Inr (td, sel', wh', gb', n3))"
        and a: "aggs = filter (\<lambda>d. field_type d = AGGREGATE) (select_descriptors b td sel' n3)"
        by blast
      from a have ne: "(aggs \<noteq> []) = (\<exists>d \<in> set (select_descriptors b td sel' n3). field_type d = AGGREGATE)"
        by (simp add: filter_empty_conv)
      have "?l = (aggs \<noteq> [] \<and> win = None)"
        using rf by (simp add: add_select_and_aggregate_def group_and_assign_window)
      also have "\<dots> = ?r"
        using rf c ne by auto
      finally show ?thesis .
    qed
  qed
next
  fix td sd aggs gb' n'
  assume rf: "resolve_fields b sel gb wfs n = Some (Inr (td, sd, aggs, gb', n'))"
  from resolve_fields_aggregates [OF rf]
  show "\<exists>sel' wh' n3.
            collect_and_verify b sel gb wfs n = Some (Inr (td, sel', wh', gb', n3))
            \<and> aggs = filter (\<lambda>d. field_type d = AGGREGATE) (select_descriptors b td sel' n3)"
    by blast
next
  fix td sd aggs gb' n' w
  assume rf: "resolve_fields b sel gb wfs n = Some (Inr (td, sd, aggs, gb', n'))"
    and aw: "aggs \<noteq> [] \<and> win = Some w"
  have sub: "set (aliases sd) \<subseteq> fst ` set sd"
    by (simp add: aliases_def)
  show "add_select_and_aggregate b sel gb wfs win t n =
                 (case describe_fields b td True gb' [] n' of
                    Inl e \<Rightarrow> Some (Inl e)
                  | Inr (gd, m) \<Rightarrow>
                      (case find (ungrouped sd gd) (aliases sd) of
                         None \<Rightarrow> Some (Inr ((GroupBy t gd aggs w, sd), m))
                       | Some a \<Rightarrow> Some (Inl (QueryException (UngroupedSelectField a)))))"
    using rf aw
    by (simp add: add_select_and_aggregate_def group_and_assign_def check_aliases_find [OF sub]
        split: option.splits sum.splits prod.splits)
qed

theorem aggregate_requires_window_witness:
  "add_select_and_aggregate example_builder
     (Grp [Grp [Tok ''count'', Tok ''('', Grp [Tok ''text''], Tok '')'', Tok ''as'', Tok ''c'']])
     [Tok []] [] None AllowAll 0
   = Some (Inl (QueryException AggregateWithoutWindow))
   \<and> add_select_and_aggregate example_builder
     (Grp [Grp [Tok ''count'', Tok ''('', Grp [Tok ''text''], Tok '')'', Tok ''as'', Tok ''c'']])
     [Tok []] [] (Some [Tok ''60'']) AllowAll 0
   = Some (Inr ((GroupBy AllowAll []
                   [new_descriptor (Tok ''c'') [Tok ''text''] AGGREGATE
                      (Some (AggregateFactory ''count'')) None True]
                   [Tok ''60''],
                 [(''c'', new_descriptor (Tok ''c'') [Tok ''text''] AGGREGATE
                            (Some (AggregateFactory ''count'')) None True),
                  (''text'', new_descriptor (Tok ''text'') [] RAW None None False)]), 0))"
proof -
  let ?call = "Grp [Tok ''count'', Grp [Tok ''text''], Tok ''as'', Tok ''c'']"
  let ?sel = "Grp [Grp [Tok ''count'', Tok ''('', Grp [Tok ''text''], Tok '')'', Tok ''as'', Tok ''c'']]"
  let ?c = "\<lambda>vis. new_descriptor (Tok ''c'') [Tok ''text''] AGGREGATE
              (Some (AggregateFactory ''count'')) None vis"
  let ?t = "\<lambda>vis. new_descriptor (Tok ''text'') [] RAW None None vis"
  let ?td = "[(''c'', ?c False), (''text'', ?t False)]"
  let ?sd = "[(''c'', ?c True), (''text'', ?t False)]"
  have cv: "collect_and_verify example_builder ?sel [Tok []] [] 0
      = Some (Inr (?td, [?call], [], [], 0))"
    by code_simp
  have r: "resolve_fields example_builder ?sel [Tok []] [] 0
      = Some (Inr (?td, ?sd, [?c True], [], 0))"
    by code_simp
  have sds: "select_descriptors example_builder ?td [?call] 0 = [?c True]"
    by code_simp
  have ag: "\<exists>d \<in> set (select_descriptors example_builder ?td [?call] 0). field_type d = AGGREGATE"
    unfolding sds by (simp add: new_descriptor_def)
  have "\<exists>td sel' wh' gb' n3 sd aggs n'.
         collect_and_verify example_builder ?sel [Tok []] [] 0 = Some (Inr (td, sel', wh', gb', n3))
         \<and> resolve_fields example_builder ?sel [Tok []] [] 0 = Some (Inr (td, sd, aggs, gb', n'))
         \<and> (\<exists>d \<in> set (select_descriptors example_builder td sel' n3). field_type d = AGGREGATE)
         \<and> (None :: tok list option) = None"
    by (intro exI conjI, rule cv, rule r, rule ag, rule refl)
  from aggregate_requires_window [THEN conjunct1, THEN iffD2, OF this]
  have no_window: "add_select_and_aggregate example_builder ?sel [Tok []] [] None AllowAll 0
      = Some (Inl (QueryException AggregateWithoutWindow))" .
  have d: "describe_fields example_builder ?td True [] [] 0 = Inr ([], 0)"
    by simp
  have f: "find (ungrouped ?sd []) (aliases ?sd) = None"
    by (simp add: ungrouped_def aliases_def new_descriptor_def)
  have "[?c True] \<noteq> [] \<and> Some [Tok ''60''] = Some [Tok ''60'']"
    by simp
  from aggregate_requires_window [THEN conjunct2, rule_format, OF r, THEN conjunct2, rule_format, OF this,
      of AllowAll]
  have "add_select_and_aggregate example_builder ?sel [Tok []] [] (Some [Tok ''60'']) AllowAll 0
      = Some (Inr ((GroupBy AllowAll [] [?c True] [Tok ''60''], ?sd), 0))"
    by (simp only: d f sum.case prod.case option.case)
  with no_window show ?thesis
    by (rule conjI)
qed

text \<open>
  The claim as the spec words it lets the error depend only on an aggregate among the
  select fields and on the missing window. In \<open>SELECT count(text) AS c, nosuch\<close> without a
  window the first select field resolves to an aggregate, and the compilation raises the
  unresolvable-field error for \<open>nosuch\<close>.
\<close>

theorem aggregate_without_window_counterexample:
  "parse_field example_builder (twitter_td example_builder) True True
     (Grp [Tok ''count'', Tok ''('', Grp [Tok ''text''], Tok '')'', Tok ''as'', Tok ''c'']) 0
   = Inr ([new_descriptor (Tok ''c'') [Tok ''text''] AGGREGATE
             (Some (AggregateFactory ''count'')) None True,
           new_descriptor (Tok ''text'') [] RAW None None False],
          [], Grp [Tok ''count'', Grp [Tok ''text''], Tok ''as'', Tok ''c''], 0)
   \<and> add_select_and_aggregate example_builder
        (Grp [Grp [Tok ''count'', Tok ''('', Grp [Tok ''text''], Tok '')'', Tok ''as'', Tok ''c''],
              Grp [Tok ''nosuch'']])
        [Tok []] [] None AllowAll 0
      = Some (Inl (QueryException (UnresolvableField (Tok ''nosuch''))))"
  by code_simp

text \<open>
  Claim C5. With aggregates and a window, and the group-by fields resolved to the group
  descriptor, the outcome is decided by the aliases of the select descriptor in order: the
  first alias with no group-by entry that is not an aggregate and is visible raises the
  ungrouped-select-field error for that alias; when every alias has a group-by entry, is
  an aggregate or is invisible, the grouped tree is returned.
\<close>

theorem ungrouped_select_field:
  assumes "resolve_fields b sel gb wfs n = Some (Inr (td, sd, aggs, gb', n'))"
    and "0 < length aggs" and "win = Some w"
    and "describe_fields b td True gb' [] n' = Inr (gd, m)"
  shows "add_select_and_aggregate b sel gb wfs win t n =
           (case find (ungrouped sd gd) (aliases sd) of
              None \<Rightarrow> Some (Inr ((GroupBy t gd aggs w, sd), m))
            | Some a \<Rightarrow> Some (Inl (QueryException (UngroupedSelectField a))))
       \<and> ((\<exists>a. a \<in> set (aliases sd) \<and> ungrouped sd gd a) \<longrightarrow>
            (\<exists>a. a \<in> set (aliases sd) \<and> ungrouped sd gd a
              \<and> add_select_and_aggregate b sel gb wfs win t n
                  = Some (Inl (QueryException (UngroupedSelectField a)))))
       \<and> ((\<forall>a d. map_of sd a = Some d \<longrightarrow>
              map_of gd a \<noteq> None \<or> field_type d = AGGREGATE \<or> \<not> visible d) \<longrightarrow>
            add_select_and_aggregate b sel gb wfs win t n
              = Some (Inr ((GroupBy t gd aggs w, sd), m)))"
proof -
  have sub: "set (aliases sd) \<subseteq> fst ` set sd"
    by (simp add: aliases_def)
  have eq: "add_select_and_aggregate b sel gb wfs win t n =
           (case find (ungrouped sd gd) (aliases sd) of
              None \<Rightarrow> Some (Inr ((GroupBy t gd aggs w, sd), m))
            | Some a \<Rightarrow> Some (Inl (QueryException (UngroupedSelectField a))))"
    using assms
    by (simp add: add_select_and_aggregate_def group_and_assign_def check_aliases_find [OF sub]
        split: option.splits)
  have some: "(\<exists>a. a \<in> set (aliases sd) \<and> ungrouped sd gd a) \<longrightarrow>
            (\<exists>a. a \<in> set (aliases sd) \<and> ungrouped sd gd a
              \<and> add_select_and_aggregate b sel gb wfs win t n
                  = Some (Inl (QueryException (UngroupedSelectField a))))"
  proof
    assume "\<exists>a. a \<in> set (aliases sd) \<and> ungrouped sd gd a"
    then obtain a where "find (ungrouped sd gd) (aliases sd) = Some a"
      by (cases "find (ungrouped sd gd) (aliases sd)") (auto simp: find_None_iff)
    moreover from this have "a \<in> set (aliases sd) \<and> ungrouped sd gd a"
      by (auto simp: find_Some_iff)
    ultimately show "\<exists>a. a \<in> set (aliases sd) \<and> ungrouped sd gd a
              \<and> add_select_and_aggregate b sel gb wfs win t n
                  = Some (Inl (QueryException (UngroupedSelectField a)))"
      using eq by auto
  qed
  have none: "(\<forall>a d. map_of sd a = Some d \<longrightarrow>
              map_of gd a \<noteq> None \<or> field_type d = AGGREGATE \<or> \<not> visible d) \<longrightarrow>
            add_select_and_aggregate b sel gb wfs win t n
              = Some (Inr ((GroupBy t gd aggs w, sd), m))"
  proof
    assume h: "\<forall>a d. map_of sd a = Some d \<longrightarrow>
              map_of gd a \<noteq> None \<or> field_type d = AGGREGATE \<or> \<not> visible d"
    have "find (ungrouped sd gd) (aliases sd) = None"
      using h by (auto simp: find_None_iff ungrouped_def split: option.splits)
    with eq show "add_select_and_aggregate b sel gb wfs win t n
              = Some (Inr ((GroupBy t gd aggs w, sd), m))"
      by simp
  qed
  from eq some none show ?thesis by blast
qed

theorem ungrouped_select_field_witness:
  "add_select_and_aggregate example_builder
     (Grp [Grp [Tok ''text''],
           Grp [Tok ''count'', Tok ''('', Grp [Tok ''lang''], Tok '')'', Tok ''as'', Tok ''c'']])
     [Tok ''group by'', Grp [Grp [Tok ''lang'']]] [] (Some [Tok ''60'']) AllowAll 0
   = Some (Inl (QueryException (UngroupedSelectField ''text'')))"
proof -
  let ?sel = "Grp [Grp [Tok ''text''],
           Grp [Tok ''count'', Tok ''('', Grp [Tok ''lang''], Tok '')'', Tok ''as'', Tok ''c'']]"
  let ?gb = "[Tok ''group by'', Grp [Grp [Tok ''lang'']]]"
  let ?c = "\<lambda>vis. new_descriptor (Tok ''c'') [Tok ''lang''] AGGREGATE
              (Some (AggregateFactory ''count'')) None vis"
  let ?t = "\<lambda>vis. new_descriptor (Tok ''text'') [] RAW None None vis"
  let ?l = "\<lambda>vis. new_descriptor (Tok ''lang'') [] RAW None None vis"
  let ?td = "[(''text'', ?t False), (''c'', ?c False), (''lang'', ?l False)]"
  let ?sd = "[(''text'', ?t True), (''c'', ?c True), (''lang'', ?l False)]"
  have r: "resolve_fields example_builder ?sel ?gb [] 0
      = Some (Inr (?td, ?sd, [?c True], [Grp [Tok ''lang'']], 0))"
    by code_simp
  have a: "0 < length [?c True]"
    by simp
  have d: "describe_fields example_builder ?td True [Grp [Tok ''lang'']] [] 0
      = Inr ([(''lang'', ?l True)], 0)"
    by code_simp
  from ungrouped_select_field [OF r a refl d, of _ AllowAll, THEN conjunct1] show ?thesis
    by (simp add: ungrouped_def aliases_def new_descriptor_def)
qed

subsection \<open>The reference verifier\<close>

text \<open>
  A descriptor the verifier returns is resolved and is the one the table holds; the
  aliases of the table do not change.
\<close>

lemma map_fst_set_descriptor: "map fst (set_descriptor td s d) = map fst td"
  by (induction td) (auto simp: set_descriptor_def)

lemma map_of_set_descriptor:
  "s \<in> fst ` set td \<Longrightarrow> map_of (set_descriptor td s d) s = Some d"
  by (induction td) (auto simp: set_descriptor_def)

lemma verify_and_fix_field_resolved:
  assumes "verify_and_fix_field field td = Some r"
  shows "\<forall>d td'. r = Inr (d, td') \<longrightarrow>
           field_type d \<noteq> UNDEFINED \<and> map fst td' = map fst td
           \<and> (\<exists>s. field = Tok s \<and> map_of td' s = Some d)"
proof (rule verify_and_fix_field.raw_induct
        [where P = "\<lambda>field td r. \<forall>d td'. r = Inr (d, td') \<longrightarrow>
           field_type d \<noteq> UNDEFINED \<and> map fst td' = map fst td
           \<and> (\<exists>s. field = Tok s \<and> map_of td' s = Some d)", OF _ assms])
  fix verify field td r
  assume IH: "\<And>f t y. verify f t = Some y \<Longrightarrow>
           \<forall>d td'. y = Inr (d, td') \<longrightarrow>
           field_type d \<noteq> UNDEFINED \<and> map fst td' = map fst t
           \<and> (\<exists>s. f = Tok s \<and> map_of td' s = Some d)"
    and body: "(case field of
      Tok s \<Rightarrow>
        case map_of td s of
        None \<Rightarrow> Some (Inl (QueryException (UnresolvableField field)))
        | Some field_descriptor \<Rightarrow>
            if field_type field_descriptor = UNDEFINED
            then case underlying_fields field_descriptor of
                 [] \<Rightarrow> Some (Inl IndexError)
                 | u # us \<Rightarrow>
                     if field = u
                     then Some (Inl (QueryException (UnresolvableField field)))
                     else Option.bind (verify u td)
                           (\<lambda>r. case r of Inl e \<Rightarrow> Some (Inl e)
                                | Inr (referenced_field_descriptor, td') \<Rightarrow>
                                    Some (Inr
 (field_descriptor
  \<lparr>underlying_fields := underlying_fields referenced_field_descriptor,
     field_type := field_type referenced_field_descriptor,
     aggregate_factory := aggregate_factory referenced_field_descriptor,
     fd_function := fd_function referenced_field_descriptor\<rparr>,
  set_descriptor td' s
   (field_descriptor
    \<lparr>underlying_fields := underlying_fields referenced_field_descriptor,
       field_type := field_type referenced_field_descriptor,
       aggregate_factory := aggregate_factory referenced_field_descriptor,
       fd_function := fd_function referenced_field_descriptor\<rparr>))))
            else Some (Inr (field_descriptor, td))
      | Grp ts \<Rightarrow> Some (Inl TypeError)) = Some r"
  show "\<forall>d td'. r = Inr (d, td') \<longrightarrow>
           field_type d \<noteq> UNDEFINED \<and> map fst td' = map fst td
           \<and> (\<exists>s. field = Tok s \<and> map_of td' s = Some d)"
  proof (intro allI impI)
    fix d td'
    assume r: "r = Inr (d, td')"
    from body r obtain s fd where s: "field = Tok s" and fd: "map_of td s = Some fd"
      by (auto split: tok.splits option.splits)
    have key: "s \<in> fst ` set td"
      using map_of_SomeD [OF fd] by force
    show "field_type d \<noteq> UNDEFINED \<and> map fst td' = map fst td
           \<and> (\<exists>s. field = Tok s \<and> map_of td' s = Some d)"
    proof (cases "field_type fd = UNDEFINED")
      case False
      with body r s fd show ?thesis by auto
    next
      case True
      with body r s fd obtain u us ref td1 where
        u: "underlying_fields fd = u # us" and ne: "field \<noteq> u"
        and rec: "verify u td = Some (Inr (ref, td1))"
        and d: "d = fd\<lparr>underlying_fields := underlying_fields ref,
                 field_type := field_type ref,
                 aggregate_factory := aggregate_factory ref,
                 fd_function := fd_function ref\<rparr>"
        and td': "td' = set_descriptor td1 s d"
        by (auto split: list.splits if_splits sum.splits Option.bind_splits)
      from IH [OF rec] have ref: "field_type ref \<noteq> UNDEFINED" and keys: "map fst td1 = map fst td"
        by auto
      from keys key have "s \<in> fst ` set td1"
        by (metis list.set_map)
      then have "map_of td' s = Some d"
        unfolding td' by (rule map_of_set_descriptor)
      with ref keys d td' s show ?thesis
        by (simp add: map_fst_set_descriptor)
    qed
  qed
qed

text \<open>The four assignments of lines 264-267, to the placeholder stored under the alias.\<close>

definition copy_resolved :: "FieldDescriptor \<Rightarrow> FieldDescriptor \<Rightarrow> FieldDescriptor" where
  "copy_resolved placeholder referenced =
     placeholder
       \<lparr>underlying_fields := underlying_fields referenced,
        field_type := field_type referenced,
        aggregate_factory := aggregate_factory referenced,
        fd_function := fd_function referenced\<rparr>"

lemma verify_and_fix_field_first:
  assumes "verify_and_fix_field field td = Some (Inr (d, td'))"
  shows "\<exists>s held. field = Tok s \<and> map_of td s = Some held
           \<and> (if field_type held = UNDEFINED then
                 (\<exists>u us referenced td1.
                    underlying_fields held = u # us \<and> u \<noteq> field
                    \<and> verify_and_fix_field u td = Some (Inr (referenced, td1))
                    \<and> d = copy_resolved held referenced
                    \<and> td' = set_descriptor td1 s d)
               else d = held \<and> td' = td)"
  using assms
  by (subst (asm) verify_and_fix_field.simps)
     (auto simp: copy_resolved_def
        split: tok.splits option.splits if_splits list.splits sum.splits Option.bind_splits)

text \<open>
  Claim C7. When the verifier returns a descriptor for an alias, it is a resolved one, of
  a type other than \<open>UNDEFINED\<close>: the descriptor the table held if that was resolved, and
  otherwise the placeholder the table held with the underlying fields, the type, the
  aggregate and the function of the descriptor that the verifier returned for the
  placeholder's reference, stored under the alias in the table in the place of the
  placeholder. Verifying the same alias again on the table the first call left returns
  the same descriptor and leaves the table as it is, and so does every lookup of the
  alias.
\<close>

theorem verify_and_fix_field_idempotent:
  assumes "verify_and_fix_field field td = Some (Inr (d, td'))"
  shows "verify_and_fix_field field td' = Some (Inr (d, td'))
       \<and> get_descriptor td' field = Inr (Some d)
       \<and> field_type d \<noteq> UNDEFINED
       \<and> aliases td' = aliases td
       \<and> (\<exists>s held. field = Tok s \<and> map_of td s = Some held
           \<and> (if field_type held = UNDEFINED then
                 (\<exists>u us referenced td1.
                    underlying_fields held = u # us \<and> u \<noteq> field
                    \<and> verify_and_fix_field u td = Some (Inr (referenced, td1))
                    \<and> d = copy_resolved held referenced
                    \<and> td' = set_descriptor td1 s d)
               else d = held \<and> td' = td))"
proof -
  from verify_and_fix_field_resolved [OF assms]
  obtain s where r: "field_type d \<noteq> UNDEFINED" and k: "map fst td' = map fst td"
    and f: "field = Tok s" and m: "map_of td' s = Some d"
    by auto
  from r f m have again: "verify_and_fix_field field td' = Some (Inr (d, td'))"
    by (subst verify_and_fix_field.simps) simp
  from f m have get: "get_descriptor td' field = Inr (Some d)"
    by (simp add: get_descriptor_def)
  from k have al: "aliases td' = aliases td"
    by (simp add: aliases_def)
  from again get r al verify_and_fix_field_first [OF assms] show ?thesis
    by blast
qed

text \<open>
  The chain \<open>b\<close>, \<open>a\<close>, \<open>text\<close>: the first call fills both placeholders with the data of
  \<open>text\<close>, the second call finds \<open>b\<close> resolved.
\<close>

theorem verify_and_fix_field_idempotent_witness:
  "verify_and_fix_field (Tok ''b'')
     [(''b'', new_descriptor (Tok ''b'') [Tok ''a''] UNDEFINED None None False),
      (''a'', new_descriptor (Tok ''a'') [Tok ''text''] UNDEFINED None None False),
      (''text'', new_descriptor (Tok ''text'') [Tok ''text''] RAW None None True)]
   = Some (Inr (new_descriptor (Tok ''b'') [Tok ''text''] RAW None None False,
     [(''b'', new_descriptor (Tok ''b'') [Tok ''text''] RAW None None False),
      (''a'', new_descriptor (Tok ''a'') [Tok ''text''] RAW None None False),
      (''text'', new_descriptor (Tok ''text'') [Tok ''text''] RAW None None True)]))
   \<and> verify_and_fix_field (Tok ''b'')
     [(''b'', new_descriptor (Tok ''b'') [Tok ''text''] RAW None None False),
      (''a'', new_descriptor (Tok ''a'') [Tok ''text''] RAW None None False),
      (''text'', new_descriptor (Tok ''text'') [Tok ''text''] RAW None None True)]
   = Some (Inr (new_descriptor (Tok ''b'') [Tok ''text''] RAW None None False,
     [(''b'', new_descriptor (Tok ''b'') [Tok ''text''] RAW None None False),
      (''a'', new_descriptor (Tok ''a'') [Tok ''text''] RAW None None False),
      (''text'', new_descriptor (Tok ''text'') [Tok ''text''] RAW None None True)]))"
proof -
  have first: "verify_and_fix_field (Tok ''b'')
     [(''b'', new_descriptor (Tok ''b'') [Tok ''a''] UNDEFINED None None False),
      (''a'', new_descriptor (Tok ''a'') [Tok ''text''] UNDEFINED None None False),
      (''text'', new_descriptor (Tok ''text'') [Tok ''text''] RAW None None True)]
   = Some (Inr (new_descriptor (Tok ''b'') [Tok ''text''] RAW None None False,
     [(''b'', new_descriptor (Tok ''b'') [Tok ''text''] RAW None None False),
      (''a'', new_descriptor (Tok ''a'') [Tok ''text''] RAW None None False),
      (''text'', new_descriptor (Tok ''text'') [Tok ''text''] RAW None None True)]))"
    by code_simp
  from first verify_and_fix_field_idempotent [OF first, THEN conjunct1] show ?thesis
    by (rule conjI)
qed

text \<open>
  Claim C2. Two placeholders that reference each other: \<open>SELECT a AS b, b AS a\<close> leaves
  this table. The verifier tests only whether a placeholder references its own alias, so on
  this table it calls itself without end and returns neither a descriptor nor the
  unresolvable-field error.
\<close>

definition cyclic_table :: TupleDescriptor where
  "cyclic_table =
     [(''b'', new_descriptor (Tok ''b'') [Tok ''a''] UNDEFINED None None False),
      (''a'', new_descriptor (Tok ''a'') [Tok ''b''] UNDEFINED None None False)]"

lemma verify_cycle_no_result:
  assumes "verify_and_fix_field field td = Some r"
  shows "\<not> (td = cyclic_table \<and> (field = Tok ''a'' \<or> field = Tok ''b''))"
proof (rule verify_and_fix_field.raw_induct
        [where P = "\<lambda>field td r. \<not> (td = cyclic_table \<and> (field = Tok ''a'' \<or> field = Tok ''b''))",
         OF _ assms], goal_cases)
  case (1 verify field td r)
  note IH = "1"(1) and body = "1"(2)
  show ?case
  proof
    assume c: "td = cyclic_table \<and> (field = Tok ''a'' \<or> field = Tok ''b'')"
    then consider (a) "field = Tok ''a''" | (b) "field = Tok ''b''"
      by blast
    then show False
    proof cases
      case a
      with body c obtain x where "verify (Tok ''b'') cyclic_table = Some x"
        by (auto simp: cyclic_table_def new_descriptor_def split: Option.bind_splits)
      from IH [OF this] show False by simp
    next
      case b
      with body c obtain x where "verify (Tok ''a'') cyclic_table = Some x"
        by (auto simp: cyclic_table_def new_descriptor_def split: Option.bind_splits)
      from IH [OF this] show False by simp
    qed
  qed
qed

theorem verify_cycle_never_returns:
  "verify_and_fix_field (Tok ''a'') cyclic_table = None
   \<and> verify_and_fix_field (Tok ''b'') cyclic_table = None"
proof -
  have "verify_and_fix_field f cyclic_table = None" if "f = Tok ''a'' \<or> f = Tok ''b''" for f
  proof (cases "verify_and_fix_field f cyclic_table")
    case None
    then show ?thesis .
  next
    case (Some r)
    from verify_cycle_no_result [OF Some] that show ?thesis by simp
  qed
  then show ?thesis by simp
qed

text \<open>The query \<open>SELECT a AS b, b AS a FROM twitter\<close> reaches it: \<open>build\<close> does not return.\<close>

lemma build_cycle_never_returns:
  "build example_builder
     \<lparr>sources = [Tok ''twitter''],
      select = [Tok ''select'', Grp [Grp [Tok ''a'', Tok ''as'', Tok ''b''],
                                     Grp [Tok ''b'', Tok ''as'', Tok ''a'']]],
      where_clause = [Tok []], groupby = [Tok []], window = [Tok []]\<rparr> 0
   = None"
proof -
  have c: "collect_fields example_builder
             [Grp [Tok ''a'', Tok ''as'', Tok ''b''], Grp [Tok ''b'', Tok ''as'', Tok ''a'']] [] [] 0
           = Inr ([Tok ''a'', Tok ''b'', Tok ''b'', Tok ''a''], cyclic_table,
                  [Grp [Tok ''a'', Tok ''as'', Tok ''b''], Grp [Tok ''b'', Tok ''as'', Tok ''a'']], 0)"
    by code_simp
  have "verify_and_fix_field (Tok ''a'') cyclic_table = None"
  proof (cases "verify_and_fix_field (Tok ''a'') cyclic_table")
    case None
    then show ?thesis .
  next
    case (Some r)
    from verify_cycle_no_result [OF Some] show ?thesis by simp
  qed
  then have v: "verify_fields [Tok ''a'', Tok ''b'', Tok ''b'', Tok ''a''] cyclic_table = None"
    by simp
  have e: "remove_all (Grp [Tok []]) (EMPTY_STRING (tokens example_builder)) = Inr (Grp [])"
    by code_simp
  have s: "get_source (tokens example_builder) [Tok ''twitter''] = Inr TWITTER_FILTER"
    by code_simp
  show ?thesis
    by (simp add: build_def get_tree_def parse_where_def add_select_and_aggregate_def
        resolve_fields_def collect_and_verify_def as_list_def c v e s
        del: collect_fields.simps(2) verify_fields.simps select_fields.simps get_source.simps)
qed

subsection \<open>The field resolver\<close>

text \<open>
  Claim C3, as the code has it. For a call (more than one token after the alias is
  taken off) whose alias is given or may be minted, and whose arguments have been
  resolved: when the aggregate registry knows the head token the field is an aggregate,
  whatever the function registry holds; when only the function registry knows it the
  field is a function; the unknown-callable error is raised exactly when neither knows it.
\<close>

theorem callable_lookup_order:
  assumes "clean_list (tokens b) field = Inr cleaned"
    and "1 < length (strip_alias (tokens b) (as_list cleaned))"
    and "has_alias (tokens b) (as_list cleaned) \<or> \<not> alias_on_complex_types"
    and "parse_underlying b td (tl (strip_alias (tokens b) (as_list cleaned)))
           (if has_alias (tokens b) (as_list cleaned) then n else n + 1)
         = Inr (parsed_fds, fields_to_verify, underlying, args, n')"
    and "head = strip_alias (tokens b) (as_list cleaned) ! 0"
    and "a = (if has_alias (tokens b) (as_list cleaned) then last (as_list cleaned)
              else Tok (''operand'' @ string_of_nat (n + 1)))"
  shows "(\<forall>factory. get_aggregate_factory b head = Some factory \<longrightarrow>
            parse_field b td alias_on_complex_types make_visible field n
            = Inr (new_descriptor a underlying AGGREGATE (Some factory) None make_visible # parsed_fds,
                   fields_to_verify, rebuilt_field (tokens b) cleaned args, n'))
       \<and> (\<forall>f. get_aggregate_factory b head = None \<and> function_registry b head = Some f \<longrightarrow>
            parse_field b td alias_on_complex_types make_visible field n
            = Inr (new_descriptor a underlying FUNCTION None (Some f) make_visible # parsed_fds,
                   fields_to_verify, rebuilt_field (tokens b) cleaned args, n'))
       \<and> ((parse_field b td alias_on_complex_types make_visible field n
             = Inl (QueryException (UnknownCallable head)))
            = (get_aggregate_factory b head = None \<and> function_registry b head = None))"
proof -
  have unfold: "parse_field b td alias_on_complex_types make_visible field n =
      (case get_aggregate_factory b head of
         Some factory \<Rightarrow>
           Inr (new_descriptor a underlying AGGREGATE (Some factory) None make_visible # parsed_fds,
                fields_to_verify, rebuilt_field (tokens b) cleaned args, n')
       | None \<Rightarrow>
           (case function_registry b head of
              Some f \<Rightarrow>
                Inr (new_descriptor a underlying FUNCTION None (Some f) make_visible # parsed_fds,
                     fields_to_verify, rebuilt_field (tokens b) cleaned args, n')
            | None \<Rightarrow> Inl (QueryException (UnknownCallable head))))"
    using assms by (subst parse_field.simps) (auto split: option.splits)
  show ?thesis
    by (auto simp: unfold split: option.splits)
qed

theorem callable_lookup_order_witness:
  "parse_field example_builder (twitter_td example_builder) True True
     (Grp [Tok ''floor'', Tok ''('', Grp [Tok ''text''], Tok '')'', Tok ''as'', Tok ''f'']) 0
   = Inr ([new_descriptor (Tok ''f'') [Tok ''text''] FUNCTION None
             (Some (RegisteredFunction ''floor'')) True,
           new_descriptor (Tok ''text'') [] RAW None None False],
          [], Grp [Tok ''floor'', Grp [Tok ''text''], Tok ''as'', Tok ''f''], 0)"
proof -
  let ?b = example_builder
  let ?cleaned = "Grp [Tok ''floor'', Grp [Tok ''text''], Tok ''as'', Tok ''f'']"
  have t: "AS (tokens ?b) = ''as''"
    by (simp add: example_builder_def example_tokens_def)
  have c: "clean_list (tokens ?b)
             (Grp [Tok ''floor'', Tok ''('', Grp [Tok ''text''], Tok '')'', Tok ''as'', Tok ''f''])
           = Inr ?cleaned"
    by code_simp
  have al: "has_alias (tokens ?b) (as_list ?cleaned)"
    by (simp add: has_alias_def as_list_def t)
  have st: "strip_alias (tokens ?b) (as_list ?cleaned) = [Tok ''floor'', Grp [Tok ''text'']]"
    by (simp add: strip_alias_def al) (simp add: as_list_def)
  have len: "1 < length (strip_alias (tokens ?b) (as_list ?cleaned))"
    by (simp add: st)
  have al': "has_alias (tokens ?b) (as_list ?cleaned) \<or> \<not> True"
    using al by simp
  have u: "parse_underlying ?b (twitter_td ?b) (tl (strip_alias (tokens ?b) (as_list ?cleaned)))
             (if has_alias (tokens ?b) (as_list ?cleaned) then 0 else 0 + 1)
           = Inr ([new_descriptor (Tok ''text'') [] RAW None None False], [], [Tok ''text''],
                  [Grp [Tok ''text'']], 0)"
    unfolding st by (simp add: al) code_simp
  have r: "get_aggregate_factory ?b (Tok ''floor'') = None
           \<and> function_registry ?b (Tok ''floor'') = Some (RegisteredFunction ''floor'')"
    by (simp add: example_builder_def)
  have h: "Tok ''floor'' = strip_alias (tokens ?b) (as_list ?cleaned) ! 0"
    by (simp add: st)
  have a: "Tok ''f'' = (if has_alias (tokens ?b) (as_list ?cleaned) then last (as_list ?cleaned)
              else Tok (''operand'' @ string_of_nat (0 + 1)))"
    by (simp add: al) (simp add: as_list_def)
  from callable_lookup_order [OF c len al' u h a, THEN conjunct2, THEN conjunct1, rule_format, OF r,
      of True]
  show ?thesis
    by (simp add: rebuilt_field_def strip_alias_def has_alias_def t)
qed

text \<open>
  The claim as the spec words it asks that exactly one lookup succeed. A head token that
  both registries know is accepted as an aggregate.
\<close>

definition overlapping_builder :: QueryBuilder where
  "overlapping_builder =
     example_builder
       \<lparr>function_registry :=
          (\<lambda>t. if t = Tok ''count'' then Some (RegisteredFunction ''count'') else None)\<rparr>"

theorem both_registries_counterexample:
  "get_aggregate_factory overlapping_builder (Tok ''count'') = Some (AggregateFactory ''count'')
   \<and> function_registry overlapping_builder (Tok ''count'') = Some (RegisteredFunction ''count'')
   \<and> parse_field overlapping_builder (twitter_td overlapping_builder) True True
        (Grp [Tok ''count'', Tok ''('', Grp [Tok ''text''], Tok '')'', Tok ''as'', Tok ''c'']) 0
      = Inr ([new_descriptor (Tok ''c'') [Tok ''text''] AGGREGATE
                (Some (AggregateFactory ''count'')) None True,
              new_descriptor (Tok ''text'') [] RAW None None False],
             [], Grp [Tok ''count'', Grp [Tok ''text''], Tok ''as'', Tok ''c''], 0)"
  by code_simp

subsection \<open>In-place changes of the token lists\<close>



















subsection \<open>Order of the clauses\<close>

text \<open>
  The data of a descriptor that a resolution yields: type, underlying fields, aggregate
  and function. Two tables resolve alike when they hold the same aliases with the same
  data; the order of the aliases in the table of lines 131-143 is not read by the code.
\<close>

definition same_data :: "FieldDescriptor \<Rightarrow> FieldDescriptor \<Rightarrow> bool" where
  "same_data d d' =
     (field_type d = field_type d' \<and> underlying_fields d = underlying_fields d'
      \<and> aggregate_factory d = aggregate_factory d' \<and> fd_function d = fd_function d')"

definition same_resolution :: "TupleDescriptor \<Rightarrow> TupleDescriptor \<Rightarrow> bool" where
  "same_resolution td td' = (\<forall>s. rel_option same_data (map_of td s) (map_of td' s))"

lemma same_data_refl: "same_data d d"
  by (simp add: same_data_def)

lemma same_data_sym: "same_data d d' \<Longrightarrow> same_data d' d"
  by (simp add: same_data_def)

lemma same_data_trans: "same_data d d' \<Longrightarrow> same_data d' d'' \<Longrightarrow> same_data d d''"
  by (simp add: same_data_def)

lemma same_resolution_refl: "same_resolution td td"
  by (simp add: same_resolution_def option.rel_refl same_data_refl)

lemma same_resolution_sym: "same_resolution td td' \<Longrightarrow> same_resolution td' td"
  unfolding same_resolution_def
proof
  fix s
  assume "\<forall>s. rel_option same_data (map_of td s) (map_of td' s)"
  then have "rel_option same_data (map_of td s) (map_of td' s)" ..
  then show "rel_option same_data (map_of td' s) (map_of td s)"
    by (cases "map_of td s"; cases "map_of td' s") (auto dest: same_data_sym)
qed

lemma same_resolutionD:
  assumes "same_resolution td td'"
  shows "map_of td s = None \<Longrightarrow> map_of td' s = None"
    and "map_of td s = Some d \<Longrightarrow> \<exists>d'. map_of td' s = Some d' \<and> same_data d d'"
proof -
  from assms have r: "rel_option same_data (map_of td s) (map_of td' s)"
    by (simp add: same_resolution_def)
  show "map_of td s = None \<Longrightarrow> map_of td' s = None"
    using r by (cases "map_of td' s") auto
  show "map_of td s = Some d \<Longrightarrow> \<exists>d'. map_of td' s = Some d' \<and> same_data d d'"
    using r by (cases "map_of td' s") auto
qed

lemma map_of_set_descriptor_any:
  "map_of (set_descriptor td s d) k =
     (if k = s then map_option (\<lambda>x. d) (map_of td s) else map_of td k)"
  by (induction td) (auto simp: set_descriptor_def)

lemma same_resolution_set_descriptor:
  assumes "same_resolution td td'" and "same_data d d'"
  shows "same_resolution (set_descriptor td s d) (set_descriptor td' s d')"
  unfolding same_resolution_def
proof
  fix k
  from assms(1) have r: "rel_option same_data (map_of td k) (map_of td' k)"
    and rs: "rel_option same_data (map_of td s) (map_of td' s)"
    by (simp_all add: same_resolution_def)
  show "rel_option same_data (map_of (set_descriptor td s d) k) (map_of (set_descriptor td' s d') k)"
  proof (cases "k = s")
    case True
    with rs assms(2) show ?thesis
      by (cases "map_of td s"; cases "map_of td' s") (auto simp: map_of_set_descriptor_any)
  next
    case False
    with r show ?thesis
      by (simp add: map_of_set_descriptor_any)
  qed
qed

lemma same_data_copy_resolved:
  "same_data referenced referenced' \<Longrightarrow>
   same_data (copy_resolved held referenced) (copy_resolved held' referenced')"
  by (simp add: same_data_def copy_resolved_def)

text \<open>
  The verifier reads of the table only the data under each alias: on tables that resolve
  alike it returns alike, raises the same error, or does not return on either.
\<close>

definition same_result ::
  "error + (FieldDescriptor \<times> TupleDescriptor) \<Rightarrow> error + (FieldDescriptor \<times> TupleDescriptor) \<Rightarrow> bool" where
  "same_result r r' =
     (case r of
        Inl e \<Rightarrow> r' = Inl e
      | Inr (d, td) \<Rightarrow>
          (case r' of Inl e' \<Rightarrow> False | Inr (d', td') \<Rightarrow> same_data d d' \<and> same_resolution td td'))"

lemma verify_and_fix_field_Tok:
  "verify_and_fix_field (Tok s) td =
     (case map_of td s of
        None \<Rightarrow> Some (Inl (QueryException (UnresolvableField (Tok s))))
      | Some held \<Rightarrow>
          if field_type held = UNDEFINED then
            (case underlying_fields held of
               [] \<Rightarrow> Some (Inl IndexError)
             | u # us \<Rightarrow>
                 if Tok s = u then Some (Inl (QueryException (UnresolvableField (Tok s))))
                 else
                   Option.bind (verify_and_fix_field u td)
                     (\<lambda>r. case r of
                        Inl e \<Rightarrow> Some (Inl e)
                      | Inr (referenced, td1) \<Rightarrow>
                          Some (Inr
                            (held
                               \<lparr>underlying_fields := underlying_fields referenced,
                                field_type := field_type referenced,
                                aggregate_factory := aggregate_factory referenced,
                                fd_function := fd_function referenced\<rparr>,
                             set_descriptor td1 s
                               (held
                                  \<lparr>underlying_fields := underlying_fields referenced,
                                   field_type := field_type referenced,
                                   aggregate_factory := aggregate_factory referenced,
                                   fd_function := fd_function referenced\<rparr>)))))
          else Some (Inr (held, td)))"
  by (subst verify_and_fix_field.simps) simp

lemma verify_and_fix_field_same_resolution:
  assumes "verify_and_fix_field field td = Some r"
  shows "\<forall>td'. same_resolution td td' \<longrightarrow>
           (\<exists>r'. verify_and_fix_field field td' = Some r' \<and> same_result r r')"
proof (rule verify_and_fix_field.raw_induct
        [where P = "\<lambda>field td r. \<forall>td'. same_resolution td td' \<longrightarrow>
           (\<exists>r'. verify_and_fix_field field td' = Some r' \<and> same_result r r')", OF _ assms],
       goal_cases)
  case (1 verify field td r)
  note IH = "1"(1) and body = "1"(2)
  show ?case
  proof (intro allI impI)
    fix td'
    assume rel: "same_resolution td td'"
    show "\<exists>r'. verify_and_fix_field field td' = Some r' \<and> same_result r r'"
    proof (cases field)
      case (Grp ts)
      with body have "r = Inl TypeError" by simp
      moreover from Grp have "verify_and_fix_field field td' = Some (Inl TypeError)"
        by (subst verify_and_fix_field.simps) simp
      ultimately show ?thesis by (simp add: same_result_def)
    next
      case (Tok s)
      show ?thesis
      proof (cases "map_of td s")
        case None
        with body Tok have "r = Inl (QueryException (UnresolvableField (Tok s)))" by simp
        moreover from same_resolutionD(1) [OF rel None]
        have "verify_and_fix_field (Tok s) td' = Some (Inl (QueryException (UnresolvableField (Tok s))))"
          by (simp add: verify_and_fix_field_Tok)
        ultimately show ?thesis
          unfolding Tok by (simp add: same_result_def)
      next
        case (Some held)
        from same_resolutionD(2) [OF rel Some] obtain held' where
          h': "map_of td' s = Some held'" and sd: "same_data held held'"
          by blast
        show ?thesis
        proof (cases "field_type held = UNDEFINED")
          case False
          with body Tok Some have "r = Inr (held, td)" by simp
          moreover from False sd h'
          have "verify_and_fix_field (Tok s) td' = Some (Inr (held', td'))"
            by (simp add: verify_and_fix_field_Tok same_data_def)
          ultimately show ?thesis
            unfolding Tok using sd rel by (simp add: same_result_def)
        next
          case True
          from True sd have t': "field_type held' = UNDEFINED"
            and u': "underlying_fields held' = underlying_fields held"
            by (simp_all add: same_data_def)
          show ?thesis
          proof (cases "underlying_fields held")
            case Nil
            with body Tok Some True have "r = Inl IndexError" by simp
            moreover from Nil t' u' h'
            have "verify_and_fix_field (Tok s) td' = Some (Inl IndexError)"
              by (simp add: verify_and_fix_field_Tok)
            ultimately show ?thesis
              unfolding Tok by (simp add: same_result_def)
          next
            case (Cons u us)
            show ?thesis
            proof (cases "Tok s = u")
              case eq: True
              from body Tok Some True Cons eq [symmetric]
              have "r = Inl (QueryException (UnresolvableField (Tok s)))"
                by simp
              moreover from eq [symmetric] Cons t' u' h'
              have "verify_and_fix_field (Tok s) td'
                      = Some (Inl (QueryException (UnresolvableField (Tok s))))"
                by (simp add: verify_and_fix_field_Tok)
              ultimately show ?thesis
                unfolding Tok by (simp add: same_result_def)
            next
              case ne: False
              from body Tok Some True Cons ne obtain x where
                rec: "verify u td = Some x"
                and r: "r = (case x of
                          Inl e \<Rightarrow> Inl e
                        | Inr (referenced, td1) \<Rightarrow>
                            Inr (copy_resolved held referenced,
                                 set_descriptor td1 s (copy_resolved held referenced)))"
                by (auto simp: copy_resolved_def split: Option.bind_splits sum.splits prod.splits)
              from IH [OF rec] rel obtain x' where
                rec': "verify_and_fix_field u td' = Some x'" and xx: "same_result x x'"
                by blast
              from ne Cons t' u' h' rec'
              have v': "verify_and_fix_field (Tok s) td' =
                      Some (case x' of
                          Inl e \<Rightarrow> Inl e
                        | Inr (referenced, td1) \<Rightarrow>
                            Inr (copy_resolved held' referenced,
                                 set_descriptor td1 s (copy_resolved held' referenced)))"
                by (simp add: verify_and_fix_field_Tok copy_resolved_def split: sum.splits prod.splits)
              show ?thesis
              proof (cases x)
                case (Inl e)
                with xx have "x' = Inl e" by (simp add: same_result_def)
                with v' r Inl show ?thesis
                  unfolding Tok by (simp add: same_result_def)
              next
                case (Inr p)
                obtain referenced td1 where p: "p = (referenced, td1)" by (cases p) auto
                from xx Inr p obtain referenced' td1' where
                  x': "x' = Inr (referenced', td1')" and rd: "same_data referenced referenced'"
                  and rt: "same_resolution td1 td1'"
                  by (auto simp: same_result_def split: sum.splits prod.splits)
                have cd: "same_data (copy_resolved held referenced) (copy_resolved held' referenced')"
                  using rd by (rule same_data_copy_resolved)
                from same_resolution_set_descriptor [OF rt cd]
                have "same_resolution
                        (set_descriptor td1 s (copy_resolved held referenced))
                        (set_descriptor td1' s (copy_resolved held' referenced'))" .
                with v' r Inr p x' cd show ?thesis
                  unfolding Tok by (simp add: same_result_def)
              qed
            qed
          qed
        qed
      qed
    qed
  qed
qed

lemma verify_fields_same_resolution:
  "verify_fields fs td = Some r \<Longrightarrow> same_resolution td td' \<Longrightarrow>
   \<exists>r'. verify_fields fs td' = Some r'
        \<and> (case r of Inl e \<Rightarrow> r' = Inl e
            | Inr t \<Rightarrow> (\<exists>t'. r' = Inr t' \<and> same_resolution t t'))"
proof (induction fs arbitrary: td td')
  case Nil
  then show ?case by auto
next
  case (Cons f fs)
  from Cons.prems(1) obtain x where x: "verify_and_fix_field f td = Some x"
    by (auto split: Option.bind_splits)
  from verify_and_fix_field_same_resolution [OF x] Cons.prems(2) obtain x' where
    x': "verify_and_fix_field f td' = Some x'" and xx: "same_result x x'"
    by blast
  show ?case
  proof (cases x)
    case (Inl e)
    with xx have "x' = Inl e" by (simp add: same_result_def)
    with x x' Inl Cons.prems(1) show ?thesis by auto
  next
    case (Inr p)
    obtain d t1 where p: "p = (d, t1)" by (cases p) auto
    from xx Inr p obtain d' t1' where p': "x' = Inr (d', t1')" and rt: "same_resolution t1 t1'"
      by (auto simp: same_result_def split: sum.splits prod.splits)
    from Cons.prems(1) x Inr p have "verify_fields fs t1 = Some r" by simp
    from Cons.IH [OF this rt] x' p' show ?thesis by simp
  qed
qed

text \<open>What the fields resolve to, or the error, or no result: the same in both runs.\<close>

definition same_outcome ::
  "(error + TupleDescriptor) option \<Rightarrow> (error + TupleDescriptor) option \<Rightarrow> bool" where
  "same_outcome r r' =
     (case r of
        None \<Rightarrow> r' = None
      | Some (Inl e) \<Rightarrow> r' = Some (Inl e)
      | Some (Inr td) \<Rightarrow> (\<exists>td'. r' = Some (Inr td') \<and> same_resolution td td'))"

lemma verify_fields_same_outcome:
  assumes "same_resolution td td'"
  shows "same_outcome (verify_fields fs td) (verify_fields fs td')"
proof (cases "verify_fields fs td")
  case None
  have "verify_fields fs td' = None"
  proof (cases "verify_fields fs td'")
    case None
    then show ?thesis .
  next
    case (Some r')
    from verify_fields_same_resolution [OF Some same_resolution_sym [OF assms]] None
    show ?thesis by simp
  qed
  with None show ?thesis by (simp add: same_outcome_def)
next
  case (Some r)
  from verify_fields_same_resolution [OF Some assms] Some show ?thesis
    by (auto simp: same_outcome_def split: sum.splits)
qed

text \<open>The verifier assigns only to placeholders: a resolved entry stays as it is.\<close>

lemma verify_and_fix_field_keeps_resolved:
  assumes "verify_and_fix_field field td = Some r"
  shows "\<forall>d td'. r = Inr (d, td') \<longrightarrow>
           (\<forall>k x. map_of td k = Some x \<and> field_type x \<noteq> UNDEFINED \<longrightarrow> map_of td' k = Some x)"
proof (rule verify_and_fix_field.raw_induct
        [where P = "\<lambda>field td r. \<forall>d td'. r = Inr (d, td') \<longrightarrow>
           (\<forall>k x. map_of td k = Some x \<and> field_type x \<noteq> UNDEFINED \<longrightarrow> map_of td' k = Some x)",
         OF _ assms], goal_cases)
  case (1 verify field td r)
  note IH = "1"(1) and body = "1"(2)
  show ?case
  proof (intro allI impI)
    fix d td' k x
    assume r: "r = Inr (d, td')" and kx: "map_of td k = Some x \<and> field_type x \<noteq> UNDEFINED"
    from body r obtain s held where s: "field = Tok s" and held: "map_of td s = Some held"
      by (auto split: tok.splits option.splits)
    show "map_of td' k = Some x"
    proof (cases "field_type held = UNDEFINED")
      case False
      with body r s held have "td' = td" by simp
      with kx show ?thesis by simp
    next
      case True
      with body r s held obtain u referenced td1 d1 where
        rec: "verify u td = Some (Inr (referenced, td1))"
        and td': "td' = set_descriptor td1 s d1"
        by (auto split: list.splits if_splits sum.splits Option.bind_splits)
      from True held kx have "k \<noteq> s" by auto
      moreover from IH [OF rec] kx have "map_of td1 k = Some x" by blast
      ultimately show ?thesis
        by (simp add: td' map_of_set_descriptor_any)
    qed
  qed
qed

lemma verify_fields_keeps_resolved:
  "verify_fields fs td = Some (Inr td') \<Longrightarrow> map_of td k = Some x \<Longrightarrow>
   field_type x \<noteq> UNDEFINED \<Longrightarrow> map_of td' k = Some x"
proof (induction fs arbitrary: td)
  case Nil
  then show ?case by simp
next
  case (Cons f fs)
  from Cons.prems(1) obtain d t1 where
    v: "verify_and_fix_field f td = Some (Inr (d, t1))" and rest: "verify_fields fs t1 = Some (Inr td')"
    by (auto split: Option.bind_splits sum.splits)
  from verify_and_fix_field_keeps_resolved [OF v] Cons.prems(2,3) have "map_of t1 k = Some x"
    by blast
  from Cons.IH [OF rest this Cons.prems(3)] show ?case .
qed

lemma verify_fields_append:
  "verify_fields (xs @ ys) td =
     Option.bind (verify_fields xs td)
       (\<lambda>r. case r of Inl e \<Rightarrow> Some (Inl e) | Inr td' \<Rightarrow> verify_fields ys td')"
proof (induction xs arbitrary: td)
  case Nil
  then show ?case by simp
next
  case (Cons x xs)
  show ?case
  proof (cases "verify_and_fix_field x td")
    case None
    then show ?thesis by simp
  next
    case (Some r)
    then show ?thesis
      by (cases r) (auto simp: Cons.IH)
  qed
qed

lemma verify_resolved_alias:
  assumes "map_of td a = Some x" and "field_type x \<noteq> UNDEFINED"
  shows "verify_fields [Tok a, Tok a] td = Some (Inr td)"
  using assms by (simp add: verify_and_fix_field_Tok)

text \<open>What a table holds after a descriptor has been added.\<close>

lemma map_of_add_descriptor:
  assumes "add_descriptor ae td d = Inr td'"
  shows "\<exists>s. fd_alias d = Tok s
           \<and> map_of td' = (map_of td)(s \<mapsto> (case map_of td s of None \<Rightarrow> d | Some held \<Rightarrow> ae held d))"
proof -
  from assms obtain s where s: "fd_alias d = Tok s"
    by (auto simp: add_descriptor_def split: tok.splits)
  have "map_of td' = (map_of td)(s \<mapsto> (case map_of td s of None \<Rightarrow> d | Some held \<Rightarrow> ae held d))"
  proof (cases "map_of td s")
    case None
    with assms s have "td' = td @ [(s, d)]"
      by (simp add: add_descriptor_def)
    with None show ?thesis
      by (auto simp: map_add_def fun_eq_iff split: option.splits)
  next
    case (Some held)
    with assms s have "td' = set_descriptor td s (ae held d)"
      by (simp add: add_descriptor_def)
    with Some show ?thesis
      by (auto simp: fun_eq_iff map_of_set_descriptor_any)
  qed
  with s show ?thesis by blast
qed

lemma add_descriptor_alias:
  "fd_alias d = Tok s \<Longrightarrow> \<exists>td'. add_descriptor ae td d = Inr td'"
  by (simp add: add_descriptor_def)

text \<open>
  Two runs over the same fields, the second with the placeholder \<open>p\<close> of the alias \<open>a\<close>
  already in its table: the tables hold the same data, but for \<open>a\<close> as long as the first
  run has met no descriptor of that alias.
\<close>

definition reference_first ::
  "string \<Rightarrow> FieldDescriptor \<Rightarrow> TupleDescriptor \<Rightarrow> TupleDescriptor \<Rightarrow> bool" where
  "reference_first a p td td' =
     ((\<forall>k. k \<noteq> a \<longrightarrow> rel_option same_data (map_of td k) (map_of td' k))
      \<and> ((map_of td a = None \<and> map_of td' a = Some p)
           \<or> rel_option same_data (map_of td a) (map_of td' a)))"

lemma reference_first_add_descriptor:
  assumes cong: "\<forall>x x' y. same_data x x' \<longrightarrow> same_data (ae x y) (ae x' y)"
    and way: "\<forall>y. same_data (ae p y) y"
    and rf: "reference_first a p t1 t2"
    and add: "add_descriptor ae t1 d = Inr t1'"
  shows "\<exists>t2'. add_descriptor ae t2 d = Inr t2' \<and> reference_first a p t1' t2'"
proof -
  from map_of_add_descriptor [OF add] obtain s where s: "fd_alias d = Tok s"
    and m1: "map_of t1' = (map_of t1)(s \<mapsto> (case map_of t1 s of None \<Rightarrow> d | Some held \<Rightarrow> ae held d))"
    by blast
  from add_descriptor_alias [OF s] obtain t2' where add2: "add_descriptor ae t2 d = Inr t2'"
    by blast
  from map_of_add_descriptor [OF add2] s
  have m2: "map_of t2' = (map_of t2)(s \<mapsto> (case map_of t2 s of None \<Rightarrow> d | Some held \<Rightarrow> ae held d))"
    by simp
  let ?v1 = "case map_of t1 s of None \<Rightarrow> d | Some held \<Rightarrow> ae held d"
  let ?v2 = "case map_of t2 s of None \<Rightarrow> d | Some held \<Rightarrow> ae held d"
  have rel_v: "same_data ?v1 ?v2" if "rel_option same_data (map_of t1 s) (map_of t2 s)"
  proof (cases "map_of t1 s")
    case None
    with that have "map_of t2 s = None" by (cases "map_of t2 s") auto
    with None show ?thesis by (simp add: same_data_refl)
  next
    case (Some h1)
    with that obtain h2 where "map_of t2 s = Some h2" and "same_data h1 h2"
      by (cases "map_of t2 s") auto
    with Some cong show ?thesis by simp
  qed
  have v: "same_data ?v1 ?v2"
  proof (cases "s = a")
    case False
    with rf have "rel_option same_data (map_of t1 s) (map_of t2 s)"
      by (simp add: reference_first_def)
    then show ?thesis by (rule rel_v)
  next
    case True
    from rf consider (ahead) "map_of t1 a = None \<and> map_of t2 a = Some p"
      | (met) "rel_option same_data (map_of t1 a) (map_of t2 a)"
      by (auto simp: reference_first_def)
    then show ?thesis
    proof cases
      case ahead
      from way have "same_data (ae p d) d" by blast
      then have "same_data d (ae p d)" by (rule same_data_sym)
      with ahead True show ?thesis by simp
    next
      case met
      with True have "rel_option same_data (map_of t1 s) (map_of t2 s)" by simp
      then show ?thesis by (rule rel_v)
    qed
  qed
  have "reference_first a p t1' t2'"
    unfolding reference_first_def
  proof (intro conjI allI impI)
    fix k
    assume "k \<noteq> a"
    with rf have r: "rel_option same_data (map_of t1 k) (map_of t2 k)"
      by (simp add: reference_first_def)
    show "rel_option same_data (map_of t1' k) (map_of t2' k)"
      using r v by (simp add: m1 m2)
  next
    show "(map_of t1' a = None \<and> map_of t2' a = Some p)
           \<or> rel_option same_data (map_of t1' a) (map_of t2' a)"
    proof (cases "s = a")
      case True
      with v show ?thesis by (simp add: m1 m2)
    next
      case False
      with rf show ?thesis by (simp add: m1 m2 reference_first_def)
    qed
  qed
  with add2 show ?thesis by blast
qed

lemma reference_first_add_descriptor_list:
  assumes cong: "\<forall>x x' y. same_data x x' \<longrightarrow> same_data (ae x y) (ae x' y)"
    and way: "\<forall>y. same_data (ae p y) y"
  shows "reference_first a p t1 t2 \<Longrightarrow> add_descriptor_list ae t1 ds = Inr t1' \<Longrightarrow>
         \<exists>t2'. add_descriptor_list ae t2 ds = Inr t2' \<and> reference_first a p t1' t2'"
proof (induction ds arbitrary: t1 t2)
  case Nil
  then show ?case by simp
next
  case (Cons d ds)
  from Cons.prems(2) obtain u1 where a1: "add_descriptor ae t1 d = Inr u1"
    and r1: "add_descriptor_list ae u1 ds = Inr t1'"
    by (auto split: sum.splits)
  from reference_first_add_descriptor [OF cong way Cons.prems(1) a1] obtain u2 where
    a2: "add_descriptor ae t2 d = Inr u2" and rf: "reference_first a p u1 u2"
    by blast
  from Cons.IH [OF rf r1] a2 show ?case by simp
qed

lemma reference_first_collect_fields:
  assumes cong: "\<forall>x x' y. same_data x x' \<longrightarrow> same_data (add_existing b x y) (add_existing b x' y)"
    and way: "\<forall>y. same_data (add_existing b p y) y"
  shows "reference_first a p t1 t2 \<Longrightarrow> collect_fields b fs f1 t1 n = Inr (r1, t1', fs', n') \<Longrightarrow>
         \<exists>v t2'. r1 = f1 @ v \<and> collect_fields b fs f2 t2 n = Inr (f2 @ v, t2', fs', n')
                \<and> reference_first a p t1' t2'"
proof (induction fs arbitrary: t1 t2 f1 f2 n r1 fs')
  case Nil
  then show ?case by simp
next
  case (Cons f fs)
  from Cons.prems(2) obtain fds ver f' n1 u1 rest' where
    pf: "parse_field b (twitter_td b) True False f n = Inr (fds, ver, f', n1)"
    and a1: "add_descriptor_list (add_existing b) t1 fds = Inr u1"
    and c1: "collect_fields b fs (f1 @ ver) u1 n1 = Inr (r1, t1', rest', n')"
    and fs': "fs' = f' # rest'"
    by (auto split: sum.splits prod.splits)
  from reference_first_add_descriptor_list [OF cong way Cons.prems(1) a1] obtain u2 where
    a2: "add_descriptor_list (add_existing b) t2 fds = Inr u2" and rf: "reference_first a p u1 u2"
    by blast
  from Cons.IH [OF rf c1, of "f2 @ ver"] obtain v t2' where
    r1: "r1 = (f1 @ ver) @ v"
    and c2: "collect_fields b fs (f2 @ ver) u2 n1 = Inr ((f2 @ ver) @ v, t2', rest', n')"
    and rf': "reference_first a p t1' t2'"
    by blast
  from pf a2 c2 fs' have "collect_fields b (f # fs) f2 t2 n = Inr (f2 @ ver @ v, t2', fs', n')"
    by simp
  with r1 rf' show ?case by auto
qed

lemma collect_fields_snoc:
  "collect_fields b fs f0 t0 n = Inr (ftv, td, fs', n') \<Longrightarrow>
   collect_fields b (fs @ [w]) f0 t0 n =
     (case parse_field b (twitter_td b) True False w n' of
        Inl e \<Rightarrow> Inl e
      | Inr (fds, ver, w', n1) \<Rightarrow>
          (case add_descriptor_list (add_existing b) td fds of
             Inl e \<Rightarrow> Inl e
           | Inr td' \<Rightarrow> Inr (ftv @ ver, td', fs' @ [w'], n1)))"
proof (induction fs arbitrary: f0 t0 n fs')
  case Nil
  then show ?case by (auto split: sum.splits prod.splits)
next
  case (Cons f fs)
  from Cons.prems obtain fds ver f' n1 u1 rest' where
    pf: "parse_field b (twitter_td b) True False f n = Inr (fds, ver, f', n1)"
    and a1: "add_descriptor_list (add_existing b) t0 fds = Inr u1"
    and c1: "collect_fields b fs (f0 @ ver) u1 n1 = Inr (ftv, td, rest', n')"
    and fs': "fs' = f' # rest'"
    by (auto split: sum.splits prod.splits)
  from Cons.IH [OF c1] pf a1 fs' show ?case
    by (auto split: sum.splits prod.splits)
qed

text \<open>
  Lines 204-219: a single token that the context does not hold yields a placeholder whose
  one underlying field is the token, and the token and the alias are to be verified.
\<close>

lemma parse_field_pending:
  assumes "clean_list (tokens b) field = Inr cleaned"
    and "strip_alias (tokens b) (as_list cleaned) = [t]"
    and "get_descriptor td t = Inr None"
    and "alias = (if has_alias (tokens b) (as_list cleaned) then last (as_list cleaned) else t)"
  shows "parse_field b td alias_on_complex_types make_visible field n =
           Inr ([new_descriptor alias [t] UNDEFINED None None make_visible], [t, alias], cleaned, n)"
  using assms by (subst parse_field.simps) simp

lemma parse_field_reference:
  assumes "map_of td a = None"
    and "a \<noteq> LPAREN (tokens b)" and "a \<noteq> RPAREN (tokens b)"
    and "AS (tokens b) \<noteq> LPAREN (tokens b)" and "AS (tokens b) \<noteq> RPAREN (tokens b)"
  shows "parse_field b td alias_on_complex_types make_visible
           (Grp [Tok a, Tok (AS (tokens b)), Tok a]) n =
         Inr ([new_descriptor (Tok a) [Tok a] UNDEFINED None None make_visible], [Tok a, Tok a],
              Grp [Tok a, Tok (AS (tokens b)), Tok a], n)"
proof -
  let ?ref = "[Tok a, Tok (AS (tokens b)), Tok a]"
  have c: "clean_list (tokens b) (Grp ?ref) = Inr (Grp ?ref)"
    using assms by (simp add: clean_list_Grp)
  have h: "has_alias (tokens b) ?ref"
    by (simp add: has_alias_def)
  have s: "strip_alias (tokens b) (as_list (Grp ?ref)) = [Tok a]"
    using h by (simp add: strip_alias_def as_list_def)
  have g: "get_descriptor td (Tok a) = Inr None"
    using assms(1) by (simp add: get_descriptor_def)
  have al: "Tok a = (if has_alias (tokens b) (as_list (Grp ?ref)) then last (as_list (Grp ?ref)) else Tok a)"
    by (simp add: as_list_def)
  from parse_field_pending [OF c s g al] show ?thesis .
qed

text \<open>
  Lines 138-143 over the chain \<open>all_fields\<close>: the fields are resolved in the order of the
  chain, then the references are verified in the order in which they were met.
\<close>

definition resolve_in_order ::
  "QueryBuilder \<Rightarrow> tok list \<Rightarrow> nat \<Rightarrow> (error + TupleDescriptor) option" where
  "resolve_in_order b all_fields n =
     (case collect_fields b all_fields [] [] n of
        Inl e \<Rightarrow> Some (Inl e)
      | Inr (fields_to_verify, tuple_descriptor, all_fields', n') \<Rightarrow>
          verify_fields fields_to_verify tuple_descriptor)"

lemma collect_fields_append:
  "collect_fields b (xs @ ys) f0 t0 n =
     (case collect_fields b xs f0 t0 n of
        Inl e \<Rightarrow> Inl e
      | Inr (f1, t1, xs', n1) \<Rightarrow>
          (case collect_fields b ys f1 t1 n1 of
             Inl e \<Rightarrow> Inl e
           | Inr (f2, t2, ys', n2) \<Rightarrow> Inr (f2, t2, xs' @ ys', n2)))"
proof (induction xs arbitrary: f0 t0 n)
  case Nil
  then show ?case by (auto split: sum.splits prod.splits)
next
  case (Cons x xs)
  then show ?case
    by (auto split: sum.splits prod.splits)
qed

text \<open>Without a group-by clause, \<open>collect_and_verify\<close> is this run over \<open>chain(select, where)\<close>.\<close>

lemma collect_and_verify_in_order:
  "map_option (map_sum id fst) (collect_and_verify b (Grp sel) [Tok []] wfs n)
     = resolve_in_order b (sel @ wfs) n"
proof -
  obtain g' where g: "remove_all (Grp [Tok []]) (EMPTY_STRING (tokens b)) = Inr g'"
    by (auto simp: remove_all_def)
  show ?thesis
    unfolding collect_and_verify_def resolve_in_order_def collect_fields_append
    by (simp add: g as_list_def map_option_case
        split: sum.splits prod.splits option.splits Option.bind_splits)
qed

text \<open>
  Claim C4. A reference to the alias \<open>a\<close>, as a where clause holds it, is a single token
  that the built-in schema does not hold: it yields a placeholder whose one underlying
  field is the token, and the token and the alias are to be verified. Let the other
  fields of the query define \<open>a\<close>: the table they leave holds a resolved descriptor under
  \<open>a\<close>. Then the reference may be resolved after all of them or before all of them. Both
  runs raise the same error, or neither returns, or both end with tables that hold the
  same aliases with the same type, underlying fields, aggregate and function; and \<open>a\<close> has
  the data of its definition. This holds for every descriptor table that lets a
  placeholder give way to a descriptor of its alias added later, keeps a resolved
  descriptor when a placeholder of its alias is added, and decides by the data alone.
\<close>

theorem alias_resolution_order_independent:
  assumes way: "\<forall>p y. field_type p = UNDEFINED \<longrightarrow> same_data (add_existing b p y) y"
    and stays: "\<forall>x p. field_type x \<noteq> UNDEFINED \<and> field_type p = UNDEFINED
                  \<longrightarrow> same_data (add_existing b x p) x"
    and cong: "\<forall>x x' y. same_data x x' \<longrightarrow> same_data (add_existing b x y) (add_existing b x' y)"
    and schema: "map_of (twitter_td b) a = None"
    and toks: "a \<noteq> LPAREN (tokens b)" "a \<noteq> RPAREN (tokens b)"
      "AS (tokens b) \<noteq> LPAREN (tokens b)" "AS (tokens b) \<noteq> RPAREN (tokens b)"
    and ref: "reference = Grp [Tok a, Tok (AS (tokens b)), Tok a]"
    and others: "collect_fields b others [] [] n = Inr (ftv, td, others', n')"
    and defined: "map_of td a = Some e" "field_type e \<noteq> UNDEFINED"
  shows "(\<forall>m make_visible.
            parse_field b (twitter_td b) True make_visible reference m =
              Inr ([new_descriptor (Tok a) [Tok a] UNDEFINED None None make_visible],
                   [Tok a, Tok a], reference, m))
       \<and> same_outcome (resolve_in_order b (others @ [reference]) n)
                      (resolve_in_order b (reference # others) n)
       \<and> (\<forall>td1. resolve_in_order b (others @ [reference]) n = Some (Inr td1) \<longrightarrow>
             (\<exists>d. map_of td1 a = Some d \<and> same_data d e))
       \<and> (\<forall>td2. resolve_in_order b (reference # others) n = Some (Inr td2) \<longrightarrow>
             (\<exists>d. map_of td2 a = Some d \<and> same_data d e))"
proof -
  let ?p = "new_descriptor (Tok a) [Tok a] UNDEFINED None None False"
  let ?ae = "add_existing b"
  have p_type: "field_type ?p = UNDEFINED" and p_alias: "fd_alias ?p = Tok a"
    by (simp_all add: new_descriptor_def)
  have parse: "parse_field b (twitter_td b) True mv reference m =
              Inr ([new_descriptor (Tok a) [Tok a] UNDEFINED None None mv],
                   [Tok a, Tok a], reference, m)" for m mv
    unfolding ref by (rule parse_field_reference [OF schema toks])
  let ?T1 = "set_descriptor td a (?ae e ?p)"
  have add1: "add_descriptor_list ?ae td [?p] = Inr ?T1"
    using defined(1) by (simp add: add_descriptor_def p_alias)
  have c1: "collect_fields b (others @ [reference]) [] [] n
              = Inr (ftv @ [Tok a, Tok a], ?T1, others' @ [reference], n')"
    by (simp add: collect_fields_snoc [OF others] parse add1 del: add_descriptor_list.simps)
  have m1: "map_of ?T1 k = (if k = a then Some (?ae e ?p) else map_of td k)" for k
    using defined(1) by (simp add: map_of_set_descriptor_any)
  have e1: "same_data (?ae e ?p) e"
    using stays defined(2) p_type by blast
  then have t1: "field_type (?ae e ?p) \<noteq> UNDEFINED"
    using defined(2) by (simp add: same_data_def)
  have r1: "resolve_in_order b (others @ [reference]) n = verify_fields (ftv @ [Tok a, Tok a]) ?T1"
    unfolding resolve_in_order_def c1 by simp
  have way_p: "\<forall>y. same_data (?ae ?p y) y"
    using way p_type by blast
  have rf0: "reference_first a ?p [] [(a, ?p)]"
    by (simp add: reference_first_def)
  from reference_first_collect_fields [OF cong way_p rf0 others, of "[Tok a, Tok a]"]
  obtain T2 where
    c2': "collect_fields b others [Tok a, Tok a] [(a, ?p)] n = Inr ([Tok a, Tok a] @ ftv, T2, others', n')"
    and rf: "reference_first a ?p td T2"
    by auto
  have add2: "add_descriptor_list ?ae [] [?p] = Inr [(a, ?p)]"
    by (simp add: add_descriptor_def p_alias)
  have c2: "collect_fields b (reference # others) [] [] n
              = Inr ([Tok a, Tok a] @ ftv, T2, reference # others', n')"
    by (simp add: parse add2 c2' del: add_descriptor_list.simps)
  from rf defined(1) obtain e2 where m2: "map_of T2 a = Some e2" and e2: "same_data e e2"
    by (cases "map_of T2 a") (auto simp: reference_first_def)
  from e2 defined(2) have t2: "field_type e2 \<noteq> UNDEFINED"
    by (simp add: same_data_def)
  have "verify_fields ([Tok a, Tok a] @ ftv) T2 = verify_fields ftv T2"
    by (simp only: verify_fields_append verify_resolved_alias [OF m2 t2]) simp
  then have r2: "resolve_in_order b (reference # others) n = verify_fields ftv T2"
    unfolding resolve_in_order_def c2 by (simp only: sum.case prod.case)
  have same: "same_resolution ?T1 T2"
    unfolding same_resolution_def
  proof
    fix k
    show "rel_option same_data (map_of ?T1 k) (map_of T2 k)"
    proof (cases "k = a")
      case True
      from same_data_trans [OF e1 e2] True m2 show ?thesis
        by (simp add: m1)
    next
      case False
      with rf show ?thesis
        by (simp add: m1 reference_first_def)
    qed
  qed
  have out: "same_outcome (verify_fields ftv ?T1) (verify_fields ftv T2)"
    using same by (rule verify_fields_same_outcome)
  have last: "verify_fields (ftv @ [Tok a, Tok a]) ?T1 = verify_fields ftv ?T1"
  proof (cases "verify_fields ftv ?T1")
    case None
    then show ?thesis by (simp add: verify_fields_append)
  next
    case (Some r)
    show ?thesis
    proof (cases r)
      case (Inl err)
      with Some show ?thesis by (simp add: verify_fields_append)
    next
      case (Inr T1')
      from verify_fields_keeps_resolved [OF Some [unfolded Inr] _ t1, of a]
      have "map_of T1' a = Some (?ae e ?p)"
        by (simp add: m1)
      from verify_resolved_alias [OF this t1] Some Inr show ?thesis
        by (simp add: verify_fields_append del: verify_fields.simps)
    qed
  qed
  have A: "same_outcome (resolve_in_order b (others @ [reference]) n)
                      (resolve_in_order b (reference # others) n)"
    using out by (simp add: r1 r2 last)
  have B: "\<exists>d. map_of td1 a = Some d \<and> same_data d e"
    if "resolve_in_order b (others @ [reference]) n = Some (Inr td1)" for td1
  proof -
    from that have v: "verify_fields ftv ?T1 = Some (Inr td1)"
      by (simp add: r1 last)
    from verify_fields_keeps_resolved [OF v _ t1, of a] have "map_of td1 a = Some (?ae e ?p)"
      by (simp add: m1)
    with e1 show ?thesis by blast
  qed
  have C: "\<exists>d. map_of td2 a = Some d \<and> same_data d e"
    if "resolve_in_order b (reference # others) n = Some (Inr td2)" for td2
  proof -
    from that have v: "verify_fields ftv T2 = Some (Inr td2)"
      by (simp add: r2)
    from verify_fields_keeps_resolved [OF v m2 t2] have "map_of td2 a = Some e2" .
    with same_data_sym [OF e2] show ?thesis by blast
  qed
  from parse A B C show ?thesis
    by blast
qed

text \<open>
  \<open>SELECT text AS a ... WHERE a contains ...\<close> with the tables of the example builder: in
  both orders \<open>a\<close> has the data of \<open>text\<close>.
\<close>

theorem alias_resolution_order_independent_witness:
  "resolve_in_order example_builder
     [Grp [Tok ''text'', Tok ''as'', Tok ''a''], Grp [Tok ''a'', Tok ''as'', Tok ''a'']] 0
     = Some (Inr [(''a'', new_descriptor (Tok ''a'') [] RAW None None False)])
   \<and> resolve_in_order example_builder
     [Grp [Tok ''a'', Tok ''as'', Tok ''a''], Grp [Tok ''text'', Tok ''as'', Tok ''a'']] 0
     = Some (Inr [(''a'', new_descriptor (Tok ''a'') [] RAW None None False)])
   \<and> same_outcome
       (resolve_in_order example_builder
          ([Grp [Tok ''text'', Tok ''as'', Tok ''a'']] @ [Grp [Tok ''a'', Tok ''as'', Tok ''a'']]) 0)
       (resolve_in_order example_builder
          (Grp [Tok ''a'', Tok ''as'', Tok ''a''] # [Grp [Tok ''text'', Tok ''as'', Tok ''a'']]) 0)"
proof -
  let ?b = example_builder
  let ?e = "new_descriptor (Tok ''a'') [] RAW None None False"
  have ae: "add_existing ?b = merge_descriptor"
    by (simp add: example_builder_def)
  have way: "\<forall>p y. field_type p = UNDEFINED \<longrightarrow> same_data (add_existing ?b p y) y"
    by (simp add: ae merge_descriptor_def same_data_def)
  have stays: "\<forall>x p. field_type x \<noteq> UNDEFINED \<and> field_type p = UNDEFINED
                  \<longrightarrow> same_data (add_existing ?b x p) x"
    by (simp add: ae merge_descriptor_def same_data_def)
  have cong: "\<forall>x x' y. same_data x x' \<longrightarrow> same_data (add_existing ?b x y) (add_existing ?b x' y)"
    by (simp add: ae merge_descriptor_def same_data_def)
  have schema: "map_of (twitter_td ?b) ''a'' = None"
    by (simp add: example_builder_def)
  have t: "''a'' \<noteq> LPAREN (tokens ?b)" "''a'' \<noteq> RPAREN (tokens ?b)"
      "AS (tokens ?b) \<noteq> LPAREN (tokens ?b)" "AS (tokens ?b) \<noteq> RPAREN (tokens ?b)"
    by (simp_all add: example_builder_def example_tokens_def)
  have ref: "Grp [Tok ''a'', Tok ''as'', Tok ''a''] = Grp [Tok ''a'', Tok (AS (tokens ?b)), Tok ''a'']"
    by (simp add: example_builder_def example_tokens_def)
  have others: "collect_fields ?b [Grp [Tok ''text'', Tok ''as'', Tok ''a'']] [] [] 0
      = Inr ([], [(''a'', ?e)], [Grp [Tok ''text'', Tok ''as'', Tok ''a'']], 0)"
    by code_simp
  have d: "map_of [(''a'', ?e)] ''a'' = Some ?e" "field_type ?e \<noteq> UNDEFINED"
    by (simp_all add: new_descriptor_def)
  have o1: "resolve_in_order ?b
     [Grp [Tok ''text'', Tok ''as'', Tok ''a''], Grp [Tok ''a'', Tok ''as'', Tok ''a'']] 0
     = Some (Inr [(''a'', ?e)])"
    by code_simp
  have o2: "resolve_in_order ?b
     [Grp [Tok ''a'', Tok ''as'', Tok ''a''], Grp [Tok ''text'', Tok ''as'', Tok ''a'']] 0
     = Some (Inr [(''a'', ?e)])"
    by code_simp
  from alias_resolution_order_independent [OF way stays cong schema t ref others d,
      THEN conjunct2, THEN conjunct1]
  have "same_outcome
       (resolve_in_order ?b
          ([Grp [Tok ''text'', Tok ''as'', Tok ''a'']] @ [Grp [Tok ''a'', Tok ''as'', Tok ''a'']]) 0)
       (resolve_in_order ?b
          (Grp [Tok ''a'', Tok ''as'', Tok ''a''] # [Grp [Tok ''text'', Tok ''as'', Tok ''a'']]) 0)" .
  with o1 o2 show ?thesis
    by (intro conjI)
qed

text \<open>
  The hypotheses on the table are needed. A table that keeps the descriptor it holds,
  whatever is added, lets the order decide: the reference first, its placeholder stays
  and references itself.
\<close>

lemma first_kept_order_dependent:
  "resolve_in_order (example_builder\<lparr>add_existing := (\<lambda>held d. held)\<rparr>)
     [Grp [Tok ''text'', Tok ''as'', Tok ''a''], Grp [Tok ''a'', Tok ''as'', Tok ''a'']] 0
     = Some (Inr [(''a'', new_descriptor (Tok ''a'') [] RAW None None False)])
   \<and> resolve_in_order (example_builder\<lparr>add_existing := (\<lambda>held d. held)\<rparr>)
     [Grp [Tok ''a'', Tok ''as'', Tok ''a''], Grp [Tok ''text'', Tok ''as'', Tok ''a'']] 0
     = Some (Inl (QueryException (UnresolvableField (Tok ''a''))))"
  by code_simp

end
